theory Spec2Isabelle
  imports Main
begin

section \<open>Faults, log events and C strings\<close>

text \<open>
  The server is C: an access outside an allocated block and a \<open>memcpy\<close> with a negative
  length are undefined behaviour. The model makes each of them a value of type \<open>fault\<close>,
  returned as \<open>Inl\<close>, so that "does not crash" is "returns \<open>Inr\<close>".
\<close>

datatype fault =
    Memcpy_negative_length
  | Arg_index_out_of_bounds
  | Null_string
  | Buffer_index_out_of_bounds
  | Negative_message_length
  | Memcpy_out_of_bounds

text \<open>
  \<open>chilog (level, format, args...)\<close> and \<open>write\<close> on the client's socket are the two
  effects of the code. Both are recorded, in order, as events. The levels are the names
  \<open>main.c\<close> uses (\<open>log.h\<close> itself is not among the sources).
\<close>

datatype loglevel = QUIET | CRITICAL | ERROR | WARNING | INFO | DEBUG | TRACE

datatype logarg = Int_arg int | Str_arg string

datatype event = Log loglevel string "logarg list" | Send string

text \<open>
  A \<open>char *\<close> block is modelled by the bytes stored in it before its terminator. What
  \<open>strcmp\<close>, \<open>strlen\<close> and \<open>%s\<close> see of it stops at the first NUL byte.
\<close>

definition cstr :: "string \<Rightarrow> string" where
  "cstr s = takeWhile (\<lambda>c. c \<noteq> CHR 0x00) s"

section \<open>message.c\<close>

text \<open>
  \<open>struct msg\<close>: \<open>command\<close> and each entry of \<open>args\<close> are pointers, \<open>None\<close> is a
  pointer that is \<open>NULL\<close> or not yet assigned.
\<close>

record msg =
  command :: "string option"
  args :: "string option list"
  numArgs :: nat

text \<open>
  First pass of \<open>parse_message\<close>: the loop over \<open>offset\<close> that increments
  \<open>m->numArgs\<close> at each space and leaves at the first colon.
\<close>

function count_args :: "string \<Rightarrow> nat \<Rightarrow> nat \<Rightarrow> nat \<Rightarrow> nat" where
  "count_args message_str message_length offset n =
     (if offset < message_length then
        (if message_str ! offset = CHR '' '' then
           count_args message_str message_length (offset + 1) (n + 1)
         else if message_str ! offset = CHR '':'' then n
         else count_args message_str message_length (offset + 1) n)
      else n)"
  by pat_completeness auto
termination
  by (relation "measure (\<lambda>(s, len, offset, n). len - offset)") auto

text \<open>
  The inner loop of the second pass. It returns \<open>(start_offset, offset)\<close> as they are
  when the loop is left: at a colon \<open>start_offset\<close> is incremented and \<open>offset\<close> becomes
  \<open>message_length + 1\<close>; at a space \<open>offset\<close> steps over it.
\<close>

function scan_token :: "string \<Rightarrow> nat \<Rightarrow> nat \<Rightarrow> nat \<Rightarrow> nat \<times> nat" where
  "scan_token message_str message_length start_offset offset =
     (if offset < message_length then
        (if message_str ! offset = CHR '':'' then (start_offset + 1, message_length + 1)
         else if message_str ! offset = CHR '' '' then (start_offset, offset + 1)
         else scan_token message_str message_length start_offset (offset + 1))
      else (start_offset, offset))"
  by pat_completeness auto
termination
  by (relation "measure (\<lambda>(s, len, start, offset). len - offset)") auto

text \<open>
  The outer loop of the second pass, \<open>arg_number\<close> running from \<open>-1\<close> (the command)
  to \<open>numArgs - 1\<close>. \<open>arg_len\<close> counts the terminator; \<open>arg_len = 0\<close> makes
  \<open>memcpy\<close>'s length \<open>-1\<close>, which is the fault \<open>Memcpy_negative_length\<close>.
  (\<open>arg_len\<close> is never negative: lemma \<open>scan_token_start_le\<close> below.)
\<close>

function collect_args ::
  "string \<Rightarrow> nat \<Rightarrow> int \<Rightarrow> nat \<Rightarrow> msg \<Rightarrow> event list \<Rightarrow> fault + (msg \<times> event list)" where
  "collect_args message_str message_length arg_number offset m evs =
     (if arg_number < int (numArgs m) then
        (let (start_offset, offset1) = scan_token message_str message_length offset offset;
             offset2 = (if offset1 = message_length then offset1 + 1 else offset1);
             arg_len = offset2 - start_offset
         in if arg_len = 0 then Inl Memcpy_negative_length
            else
              (let arg = take (arg_len - 1) (drop start_offset message_str);
                   evs' = evs @
                     [Log DEBUG ''%i - %i: %i''
                        [Int_arg (int start_offset), Int_arg (int offset2), Int_arg (int arg_len)],
                      Log DEBUG ''Arg: %s'' [Str_arg (cstr arg)]];
                   m' = (if arg_number = -1 then m\<lparr>command := Some arg\<rparr>
                         else m\<lparr>args := (args m)[nat arg_number := Some arg]\<rparr>)
               in collect_args message_str message_length (arg_number + 1) offset2 m' evs'))
      else Inr (m, evs))"
  by pat_completeness auto
termination
  by (relation "measure (\<lambda>(s, len, k, offset, m, evs). nat (int (numArgs m) - k))")
     (auto split: if_splits)

text \<open>
  \<open>parse_message\<close>: \<open>message_str\<close> is the memory from the pointer on, of which the
  first \<open>message_length\<close> bytes are the frame. The \<open>args\<close> array is allocated with
  \<open>numArgs\<close> entries, none of them assigned yet.
\<close>

definition parse_message :: "string \<Rightarrow> nat \<Rightarrow> fault + (msg \<times> event list)" where
  "parse_message message_str message_length =
     (let n = count_args message_str message_length 0 0;
          m = \<lparr>command = None, args = replicate n None, numArgs = n\<rparr>
      in collect_args message_str message_length (-1) 0 m [])"

text \<open>
  \<open>get_arg\<close> reads \<open>m->args[arg_index]\<close> and overwrites the entry with \<open>NULL\<close>. The
  array has \<open>numArgs\<close> entries; an index outside it is the fault
  \<open>Arg_index_out_of_bounds\<close>.
\<close>

definition get_arg :: "msg \<Rightarrow> nat \<Rightarrow> fault + (string option \<times> msg)" where
  "get_arg m arg_index =
     (if arg_index < length (args m) then
        Inr (args m ! arg_index, m\<lparr>args := (args m)[arg_index := None]\<rparr>)
      else Inl Arg_index_out_of_bounds)"

section \<open>main.c: the command interpreter\<close>

text \<open>
  \<open>struct client\<close>, with the fields \<open>main.c\<close> reads and writes (\<open>client.h\<close> itself
  is not among the sources). \<open>None\<close> is \<open>NULL\<close>.
\<close>

record client =
  sockfd :: int
  nick :: "string option"
  username :: "string option"
  fullName :: "string option"
  welcomeMessageSent :: bool

text \<open>\<open>send_data\<close> writes \<open>strlen (data)\<close> bytes of \<open>data\<close> to the client's socket.\<close>

definition send_data :: "client \<Rightarrow> string \<Rightarrow> event list" where
  "send_data c data = [Send (cstr data)]"

text \<open>
  \<open>send_welcome_message\<close>: ten calls of \<open>send_data\<close>, then the flag. \<open>RPL_WELCOME\<close>
  is a macro of \<open>reply.h\<close>, which is not among the sources: it is the parameter
  \<open>rpl_welcome\<close>. Passing a \<open>NULL\<close> \<open>nick\<close> or \<open>username\<close> to \<open>strlen\<close> is the
  fault \<open>Null_string\<close>.
\<close>

definition send_welcome_message :: "string \<Rightarrow> client \<Rightarrow> fault + (client \<times> event list)" where
  "send_welcome_message rpl_welcome c =
     (case nick c of
        None \<Rightarrow> Inl Null_string
      | Some n \<Rightarrow>
          (case username c of
             None \<Rightarrow> Inl Null_string
           | Some u \<Rightarrow>
               Inr (c\<lparr>welcomeMessageSent := True\<rparr>,
                    send_data c '':irc.alexbostock.co.uk '' @
                    send_data c rpl_welcome @
                    send_data c '' '' @
                    send_data c n @
                    send_data c '' :Welcome to the Internet Relay Network '' @
                    send_data c n @
                    send_data c ''!'' @
                    send_data c u @
                    send_data c ''@'' @
                    send_data c (''foo.example.com'' @ [CHR 0x0D, CHR 0x0A]))))"

text \<open>
  The \<open>NICK\<close> branch, the \<open>USER\<close> branch and the \<open>else\<close> branch of \<open>process_message\<close>.
  A \<open>NULL\<close> string given to \<open>strcmp\<close> or to \<open>%s\<close> is the fault \<open>Null_string\<close>.
\<close>

definition handle_command :: "msg \<Rightarrow> client \<Rightarrow> fault + (client \<times> event list)" where
  "handle_command m c =
     (case command m of
        None \<Rightarrow> Inl Null_string
      | Some cmd \<Rightarrow>
          if cstr cmd = ''NICK'' then
            (case get_arg m 0 of
               Inl e \<Rightarrow> Inl e
             | Inr (None, m1) \<Rightarrow> Inl Null_string
             | Inr (Some a0, m1) \<Rightarrow>
                 Inr (c\<lparr>nick := Some a0\<rparr>,
                      [Log INFO ''Processing NICK'' [],
                       Log INFO ''Parsed nick: %s'' [Str_arg (cstr a0)]]))
          else if cstr cmd = ''USER'' then
            (case get_arg m 0 of
               Inl e \<Rightarrow> Inl e
             | Inr (a0, m1) \<Rightarrow>
                 (case get_arg m1 3 of
                    Inl e \<Rightarrow> Inl e
                  | Inr (a3, m2) \<Rightarrow>
                      (case (a0, a3) of
                         (Some u, Some f) \<Rightarrow>
                           Inr (c\<lparr>username := Some u, fullName := Some f\<rparr>,
                                [Log INFO ''Processing USER'' [],
                                 Log INFO ''Parsed username: %s'' [Str_arg (cstr u)],
                                 Log INFO ''Parsed fullName: %s'' [Str_arg (cstr f)]])
                       | _ \<Rightarrow> Inl Null_string)))
          else Inr (c, [Log ERROR ''Unexpected command %s'' [Str_arg (cstr cmd)]]))"

text \<open>
  \<open>process_message\<close>: parse, run the branch for the command, free the message (which has
  no effect that the model observes), then send the welcome if \<open>nick\<close> and \<open>username\<close> are
  set and it was not sent before.
\<close>

definition process_message ::
  "string \<Rightarrow> string \<Rightarrow> nat \<Rightarrow> client \<Rightarrow> fault + (client \<times> event list)" where
  "process_message rpl_welcome message message_length c =
     (case parse_message message message_length of
        Inl e \<Rightarrow> Inl e
      | Inr (m, evs0) \<Rightarrow>
          (case handle_command m c of
             Inl e \<Rightarrow> Inl e
           | Inr (c1, evs1) \<Rightarrow>
               if nick c1 \<noteq> None \<and> username c1 \<noteq> None \<and> \<not> welcomeMessageSent c1 then
                 (case send_welcome_message rpl_welcome c1 of
                    Inl e \<Rightarrow> Inl e
                  | Inr (c2, evs2) \<Rightarrow> Inr (c2, evs0 @ evs1 @ evs2))
               else Inr (c1, evs0 @ evs1)))"

section \<open>main.c: the frame splitter and the connection loop\<close>

text \<open>
  The two loops below call \<open>process_message\<close> on each frame. They are modelled once, over
  the function \<open>h\<close> that is called on a frame, so that the same loop can be run with
  \<open>process_message\<close> (the code) and with \<open>record_frame\<close>, which only lists the frames it
  is given.
\<close>

type_synonym 's handler = "string \<Rightarrow> nat \<Rightarrow> 's \<Rightarrow> fault + ('s \<times> event list)"

definition record_frame :: "(string list) handler" where
  "record_frame message message_length frames = Inr (frames @ [take message_length message], [])"

text \<open>
  The \<open>for\<close> loop of \<open>process_buffered_messages\<close>, from the current \<open>i\<close> and
  \<open>message_start_offset\<close>. The guard \<open>i < buffer_offset - 1\<close> is on C \<open>int\<close>s; on naturals
  it is written \<open>i + 1 < buffer_offset\<close>. The handler is given the pointer
  \<open>buffer + message_start_offset\<close>, that is the buffer from that index on.
  \<open>message_length = i - message_start_offset\<close> is a C \<open>int\<close> as well: where it would
  be negative the model stops with \<open>Negative_message_length\<close>, and lemma
  \<open>process_buffered_messages_length_not_negative\<close> below shows that this never happens.
\<close>

function scan_buffer ::
  "'s handler \<Rightarrow> string \<Rightarrow> nat \<Rightarrow> nat \<Rightarrow> nat \<Rightarrow> 's \<Rightarrow> event list \<Rightarrow>
     fault + (nat \<times> 's \<times> event list)" where
  "scan_buffer h buffer buffer_offset i message_start_offset c evs =
     (if i + 1 < buffer_offset then
        (if \<not> i + 1 < length buffer then Inl Buffer_index_out_of_bounds
         else if buffer ! i = CHR 0x0D \<and> buffer ! (i + 1) = CHR 0x0A then
           (if i < message_start_offset then Inl Negative_message_length
            else
              (case h (drop message_start_offset buffer) (i - message_start_offset) c of
                 Inl e \<Rightarrow> Inl e
               | Inr (c', evs') \<Rightarrow>
                   scan_buffer h buffer buffer_offset (i + 1) (i + 2) c' (evs @ evs')))
         else scan_buffer h buffer buffer_offset (i + 1) message_start_offset c evs)
      else Inr (message_start_offset, c, evs))"
  by pat_completeness auto
termination
  by (relation "measure (\<lambda>(h, buffer, buffer_offset, i, mso, c, evs). buffer_offset - i)") auto

definition process_buffered_messages_with ::
  "'s handler \<Rightarrow> string \<Rightarrow> nat \<Rightarrow> nat \<Rightarrow> 's \<Rightarrow> fault + (nat \<times> 's \<times> event list)" where
  "process_buffered_messages_with h buffer buffer_size buffer_offset c =
     (case scan_buffer h buffer buffer_offset 1 0 c [] of
        Inl e \<Rightarrow> Inl e
      | Inr (message_start_offset, c', evs) \<Rightarrow>
          if message_start_offset = 0 \<and> buffer_offset = buffer_size then
            Inr (buffer_size, c',
                 evs @ [Log WARNING
                   ''Buffer full of an oversized / invalid message. Dropping buffered data'' []])
          else Inr (message_start_offset, c', evs))"

definition process_buffered_messages ::
  "string \<Rightarrow> string \<Rightarrow> nat \<Rightarrow> nat \<Rightarrow> client \<Rightarrow> fault + (nat \<times> client \<times> event list)" where
  "process_buffered_messages rpl_welcome =
     process_buffered_messages_with (process_message rpl_welcome)"

text \<open>
  \<open>memcpy (buffer + dst, buffer + src, n)\<close> inside one block. Reading or writing past
  the end of the block is the fault \<open>Memcpy_out_of_bounds\<close>. (The loop below calls it
  with \<open>dst = 0\<close> and \<open>src = n\<close>, so the two ranges never overlap.)
\<close>

definition memcpy_buffer :: "string \<Rightarrow> nat \<Rightarrow> nat \<Rightarrow> nat \<Rightarrow> fault + string" where
  "memcpy_buffer buffer dst src n =
     (if src + n \<le> length buffer \<and> dst + n \<le> length buffer then
        Inr (take dst buffer @ take n (drop src buffer) @ drop (dst + n) buffer)
      else Inl Memcpy_out_of_bounds)"

text \<open>
  What one call of \<open>read\<close> returns: \<open>-1\<close>, or the bytes it stored at
  \<open>buffer + buffer_offset\<close> (none at end of file, when \<open>read\<close> returns \<open>0\<close>).
\<close>

datatype read_result = Read_failed | Read_bytes string

text \<open>
  The \<open>while (true)\<close> loop never returns. Run on a finite list of results of \<open>read\<close>, it
  ends in one of four ways: blocked in the next \<open>read\<close> (with the buffer, the offset, the
  client and the events so far), \<open>exit\<close> of the whole process, undefined behaviour, or a
  list that is no run at all because \<open>read\<close> returned more bytes than it was asked for.
\<close>

datatype 's outcome =
    Waiting_for_read string nat 's "event list"
  | Process_exit int "event list"
  | Undefined_behaviour fault "event list"
  | Not_a_read "event list"

fun client_loop ::
  "'s handler \<Rightarrow> nat \<Rightarrow> string \<Rightarrow> nat \<Rightarrow> 's \<Rightarrow> event list \<Rightarrow> read_result list \<Rightarrow> 's outcome" where
  "client_loop h buffer_size buffer buffer_offset c tr [] =
     Waiting_for_read buffer buffer_offset c tr"
| "client_loop h buffer_size buffer buffer_offset c tr (Read_failed # reads) =
     Process_exit 1 (tr @ [Log ERROR ''Failed to read from client connection'' []])"
| "client_loop h buffer_size buffer buffer_offset c tr (Read_bytes bytes # reads) =
     (if buffer_size - buffer_offset < length bytes then Not_a_read tr
      else
        (let buffer1 = take buffer_offset buffer @ bytes @
                         drop (buffer_offset + length bytes) buffer;
             buffer_offset1 = buffer_offset + length bytes
         in case process_buffered_messages_with h buffer1 buffer_size buffer_offset1 c of
              Inl e \<Rightarrow> Undefined_behaviour e tr
            | Inr (consumed_offset, c', evs) \<Rightarrow>
                (case memcpy_buffer buffer1 0 consumed_offset consumed_offset of
                   Inl e \<Rightarrow> Undefined_behaviour e (tr @ evs)
                 | Inr buffer2 \<Rightarrow>
                     client_loop h buffer_size buffer2 (buffer_offset1 - consumed_offset)
                       c' (tr @ evs) reads)))"

text \<open>
  \<open>process_client_messages\<close>: \<open>buffer_size\<close> is 1024 and \<open>buffer_offset\<close> starts at 0.
  The bytes of the block \<open>malloc\<close> returns are indeterminate, so they are the parameter
  \<open>block\<close> (of length 1024).
\<close>

definition buffer_size :: nat where
  "buffer_size = 1024"

definition process_client_messages_with ::
  "'s handler \<Rightarrow> string \<Rightarrow> 's \<Rightarrow> read_result list \<Rightarrow> 's outcome" where
  "process_client_messages_with h block c reads = client_loop h buffer_size block 0 c [] reads"

definition process_client_messages ::
  "string \<Rightarrow> string \<Rightarrow> client \<Rightarrow> read_result list \<Rightarrow> client outcome" where
  "process_client_messages rpl_welcome = process_client_messages_with (process_message rpl_welcome)"

text \<open>\<open>main\<close> sets up each new client like this before it starts the client's thread.\<close>

definition new_client :: "int \<Rightarrow> client" where
  "new_client fd =
     \<lparr>sockfd = fd, nick = None, username = None, fullName = None, welcomeMessageSent = False\<rparr>"

section \<open>Reading results\<close>

text \<open>The message \<open>parse_message\<close> returns when it is given exactly the bytes of a frame.\<close>

definition parse_frame :: "string \<Rightarrow> fault + msg" where
  "parse_frame frame =
     (case parse_message frame (length frame) of Inl e \<Rightarrow> Inl e | Inr (m, evs) \<Rightarrow> Inr m)"

text \<open>
  The spec's first pass, in its own words: the number of spaces before the first colon
  of the frame.
\<close>

definition spaces_before_colon :: "string \<Rightarrow> nat" where
  "spaces_before_colon frame =
     length (filter (\<lambda>c. c = CHR '' '') (takeWhile (\<lambda>c. c \<noteq> CHR '':'') frame))"

text \<open>
  A consumer that calls \<open>get_arg\<close> on the same message at each index of a list in turn;
  it returns what the calls returned, in order.
\<close>

fun get_args :: "msg \<Rightarrow> nat list \<Rightarrow> fault + (string option list \<times> msg)" where
  "get_args m [] = Inr ([], m)"
| "get_args m (i # is) =
     (case get_arg m i of
        Inl e \<Rightarrow> Inl e
      | Inr (v, m1) \<Rightarrow>
          (case get_args m1 is of
             Inl e \<Rightarrow> Inl e
           | Inr (vs, m2) \<Rightarrow> Inr (v # vs, m2)))"

text \<open>What an outcome of the connection loop holds.\<close>

fun final_state :: "'s outcome \<Rightarrow> 's option" where
  "final_state (Waiting_for_read buffer buffer_offset c tr) = Some c"
| "final_state (Process_exit status tr) = None"
| "final_state (Undefined_behaviour e tr) = None"
| "final_state (Not_a_read tr) = None"

fun trace_of :: "'s outcome \<Rightarrow> event list" where
  "trace_of (Waiting_for_read buffer buffer_offset c tr) = tr"
| "trace_of (Process_exit status tr) = tr"
| "trace_of (Undefined_behaviour e tr) = tr"
| "trace_of (Not_a_read tr) = tr"

text \<open>The bytes that are valid and not yet consumed when the loop waits for a read.\<close>

fun pending_bytes :: "'s outcome \<Rightarrow> string" where
  "pending_bytes (Waiting_for_read buffer buffer_offset c tr) = take buffer_offset buffer"
| "pending_bytes (Process_exit status tr) = []"
| "pending_bytes (Undefined_behaviour e tr) = []"
| "pending_bytes (Not_a_read tr) = []"

text \<open>What a trace wrote to the socket.\<close>

fun sends :: "event list \<Rightarrow> string list" where
  "sends [] = []"
| "sends (Send data # evs) = data # sends evs"
| "sends (Log level format as # evs) = sends evs"

declare count_args.simps [simp del]
declare scan_token.simps [simp del]
declare collect_args.simps [simp del]
declare scan_buffer.simps [simp del]

section \<open>The parser: lemmas\<close>

lemma count_args_spaces:
  "message_length \<le> length s \<Longrightarrow>
   count_args s message_length offset n =
     n + length (filter (\<lambda>c. c = CHR '' '')
           (takeWhile (\<lambda>c. c \<noteq> CHR '':'') (drop offset (take message_length s))))"
proof (induction s message_length offset n rule: count_args.induct)
  case (1 s len offset n)
  show ?case
  proof (cases "offset < len")
    case False
    then show ?thesis by (simp add: count_args.simps [of s len offset n])
  next
    case True
    with "1.prems" have d: "drop offset (take len s) = s ! offset # drop (Suc offset) (take len s)"
      by (simp add: Cons_nth_drop_Suc [symmetric])
    show ?thesis
      using True "1.prems" "1.IH" d by (simp add: count_args.simps [of s len offset n])
  qed
qed

lemma count_args_frame: "count_args frame (length frame) 0 0 = spaces_before_colon frame"
  by (simp add: count_args_spaces spaces_before_colon_def)

text \<open>The inner loop leaves \<open>start_offset\<close> at or before \<open>offset\<close>.\<close>

lemma scan_token_start_le:
  "scan_token s len st offset = (st', o1) \<Longrightarrow> st \<le> offset \<Longrightarrow> st' \<le> o1"
proof (induction s len st offset rule: scan_token.induct)
  case (1 s len st offset)
  show ?case
  proof (cases "offset < len \<and> s ! offset \<noteq> CHR '':'' \<and> s ! offset \<noteq> CHR '' ''")
    case True
    with "1.prems" have "scan_token s len st (offset + 1) = (st', o1)"
      by (simp add: scan_token.simps [of s len st offset])
    with True "1.prems" "1.IH" show ?thesis by simp
  next
    case False
    with "1.prems" show ?thesis
      by (auto simp add: scan_token.simps [of s len st offset] split: if_splits)
  qed
qed

text \<open>One iteration of the outer loop.\<close>

lemma collect_args_done:
  "\<not> k < int (numArgs m) \<Longrightarrow> collect_args s len k offset m evs = Inr (m, evs)"
  by (simp add: collect_args.simps [of s len k offset m evs])

lemma collect_args_step:
  assumes "k < int (numArgs m)" and "scan_token s len offset offset = (st, o1)"
    and "o2 = (if o1 = len then o1 + 1 else o1)" and "st < o2"
  shows "collect_args s len k offset m evs =
     collect_args s len (k + 1) o2
       (if k = -1 then m\<lparr>command := Some (take (o2 - st - 1) (drop st s))\<rparr>
        else m\<lparr>args := (args m)[nat k := Some (take (o2 - st - 1) (drop st s))]\<rparr>)
       (evs @ [Log DEBUG ''%i - %i: %i''
                 [Int_arg (int st), Int_arg (int o2), Int_arg (int (o2 - st))],
               Log DEBUG ''Arg: %s'' [Str_arg (cstr (take (o2 - st - 1) (drop st s)))]])"
  using assms by (simp add: collect_args.simps [of s len k offset m evs] Let_def)

lemma collect_args_fault:
  assumes "k < int (numArgs m)" and "scan_token s len offset offset = (st, o1)"
    and "o2 = (if o1 = len then o1 + 1 else o1)" and "\<not> st < o2"
  shows "collect_args s len k offset m evs = Inl Memcpy_negative_length"
  using assms by (simp add: collect_args.simps [of s len k offset m evs] Let_def)

text \<open>What every run of the outer loop keeps, and what it fills.\<close>

lemma sends_append: "sends (xs @ ys) = sends xs @ sends ys"
  by (induction xs rule: sends.induct) simp_all

lemma collect_args_inv:
  assumes "collect_args s len k offset m evs = Inr (m', evs')"
  shows "numArgs m' = numArgs m \<and> length (args m') = length (args m) \<and> sends evs' = sends evs"
  using assms
proof (induction "nat (int (numArgs m) - k)" arbitrary: k offset m evs)
  case 0
  then show ?case by (simp add: collect_args_done)
next
  case (Suc n)
  then have lt: "k < int (numArgs m)" by linarith
  obtain st o1 where sc: "scan_token s len offset offset = (st, o1)" by force
  define o2 where "o2 = (if o1 = len then o1 + 1 else o1)"
  define m1 where "m1 = (if k = -1 then m\<lparr>command := Some (take (o2 - st - 1) (drop st s))\<rparr>
        else m\<lparr>args := (args m)[nat k := Some (take (o2 - st - 1) (drop st s))]\<rparr>)"
  define evs1 where "evs1 = evs @ [Log DEBUG ''%i - %i: %i''
                 [Int_arg (int st), Int_arg (int o2), Int_arg (int (o2 - st))],
               Log DEBUG ''Arg: %s'' [Str_arg (cstr (take (o2 - st - 1) (drop st s)))]]"
  show ?case
  proof (cases "st < o2")
    case False
    with Suc.prems lt sc o2_def show ?thesis by (simp add: collect_args_fault)
  next
    case True
    note step = collect_args_step [OF lt sc o2_def True, of evs]
    from Suc.prems have rec: "collect_args s len (k + 1) o2 m1 evs1 = Inr (m', evs')"
      by (simp add: step m1_def evs1_def)
    have m1: "numArgs m1 = numArgs m" "length (args m1) = length (args m)"
      by (simp_all add: m1_def)
    have n: "n = nat (int (numArgs m1) - (k + 1))"
      using Suc.hyps(2) m1(1) by linarith
    from Suc.hyps(1) [OF n rec] m1 show ?thesis by (simp add: sends_append evs1_def)
  qed
qed

lemma collect_args_fills:
  assumes "collect_args s len k offset m evs = Inr (m', evs')"
    and "-1 \<le> k" and "length (args m) = numArgs m"
    and "\<forall>i. int i < k \<longrightarrow> args m ! i \<noteq> None"
    and "k = -1 \<or> command m \<noteq> None"
  shows "(\<forall>i < numArgs m. args m' ! i \<noteq> None) \<and> command m' \<noteq> None"
  using assms
proof (induction "nat (int (numArgs m) - k)" arbitrary: k offset m evs)
  case 0
  then have "\<not> k < int (numArgs m)" by linarith
  with 0 show ?case by (auto simp add: collect_args_done)
next
  case (Suc n)
  then have lt: "k < int (numArgs m)" by linarith
  obtain st o1 where sc: "scan_token s len offset offset = (st, o1)" by force
  define o2 where "o2 = (if o1 = len then o1 + 1 else o1)"
  define m1 where "m1 = (if k = -1 then m\<lparr>command := Some (take (o2 - st - 1) (drop st s))\<rparr>
        else m\<lparr>args := (args m)[nat k := Some (take (o2 - st - 1) (drop st s))]\<rparr>)"
  show ?case
  proof (cases "st < o2")
    case False
    with Suc.prems lt sc o2_def show ?thesis by (simp add: collect_args_fault)
  next
    case True
    note step = collect_args_step [OF lt sc o2_def True, of evs]
    from Suc.prems(1) obtain evs1 where rec: "collect_args s len (k + 1) o2 m1 evs1 = Inr (m', evs')"
      by (simp add: step m1_def)
    have n: "n = nat (int (numArgs m1) - (k + 1))"
    proof -
      have "numArgs m1 = numArgs m" by (simp add: m1_def)
      with Suc.hyps(2) show ?thesis by linarith
    qed
    have a: "-1 \<le> k + 1" using Suc.prems(2) by simp
    have b: "length (args m1) = numArgs m1" using Suc.prems(3) by (simp add: m1_def)
    have c: "\<forall>i. int i < k + 1 \<longrightarrow> args m1 ! i \<noteq> None"
    proof (intro allI impI)
      fix i assume i: "int i < k + 1"
      show "args m1 ! i \<noteq> None"
      proof (cases "int i < k")
        case True
        with Suc.prems(4) have "args m ! i \<noteq> None" by blast
        with True show ?thesis by (simp add: m1_def nth_list_update)
      next
        case False
        with i have "int i = k" by linarith
        with lt Suc.prems(3) show ?thesis by (auto simp add: m1_def)
      qed
    qed
    have d: "k + 1 = -1 \<or> command m1 \<noteq> None"
      using Suc.prems(5) by (auto simp add: m1_def)
    from Suc.hyps(1) [OF n rec a b c d] show ?thesis by (simp add: m1_def split: if_splits)
  qed
qed

lemma scan_token_colon:
  "length xs < len \<Longrightarrow> scan_token (xs @ CHR '':'' # zs) len st (length xs) = (st + 1, len + 1)"
  by (simp add: scan_token.simps [of _ len st "length xs"])

lemma scan_token_space:
  "\<forall>c \<in> set tok. c \<noteq> CHR '' '' \<and> c \<noteq> CHR '':'' \<Longrightarrow> length xs + length tok < len \<Longrightarrow>
   scan_token (xs @ tok @ CHR '' '' # zs) len st (length xs) = (st, length xs + length tok + 1)"
proof (induction tok arbitrary: xs)
  case Nil
  then show ?case by (simp add: scan_token.simps [of _ len st "length xs"])
next
  case (Cons c tok)
  from Cons.prems have "scan_token ((xs @ [c]) @ tok @ CHR '' '' # zs) len st (length (xs @ [c]))
      = (st, length (xs @ [c]) + length tok + 1)"
    by (intro Cons.IH) simp_all
  with Cons.prems show ?case
    by (simp add: scan_token.simps [of _ len st "length xs"])
qed

lemma collect_args_trailing:
  assumes "CHR '':'' \<notin> set ys" and "ys = [] \<or> last ys = CHR '' ''"
    and "s = xs @ ys @ CHR '':'' # rest"
    and "int (length (filter (\<lambda>c. c = CHR '' '') ys)) = int (numArgs m) - 1 - k"
    and "-1 \<le> k" and "1 \<le> numArgs m" and "length (args m) = numArgs m"
  shows "\<exists>m' evs'. collect_args s (length s) k (length xs) m evs = Inr (m', evs') \<and>
           last (args m') = Some rest"
  using assms
proof (induction "length (filter (\<lambda>c. c = CHR '' '') ys)" arbitrary: xs ys k m evs)
  case 0
  then have ys: "ys = []" by (cases ys rule: rev_cases) auto
  with 0 have k: "k = int (numArgs m) - 1" by simp
  with "0.prems" have lt: "k < int (numArgs m)" and k0: "k \<noteq> -1" by simp_all
  have sc: "scan_token s (length s) (length xs) (length xs) = (length xs + 1, length s + 1)"
    using "0.prems"(3) ys by (simp add: scan_token_colon)
  have step: "collect_args s (length s) k (length xs) m evs =
      collect_args s (length s) (k + 1) (length s + 1)
        (m\<lparr>args := (args m)[nat k := Some rest]\<rparr>)
        (evs @ [Log DEBUG ''%i - %i: %i''
                 [Int_arg (int (length xs + 1)), Int_arg (int (length s + 1)),
                  Int_arg (int (length s + 1 - (length xs + 1)))],
               Log DEBUG ''Arg: %s'' [Str_arg (cstr rest)]])"
    using collect_args_step [OF lt sc, of "length s + 1" evs] k0 "0.prems"(3) ys by simp
  have "args m \<noteq> []" using "0.prems" by auto
  moreover have "nat k = length (args m) - 1" using k "0.prems" by simp
  ultimately have "last ((args m)[nat k := Some rest]) = Some rest"
    by (simp add: last_list_update)
  then show ?case using step k by (simp add: collect_args_done)
next
  case (Suc n)
  then have "filter (\<lambda>c. c = CHR '' '') ys \<noteq> []" by auto
  then have "CHR '' '' \<in> set ys" by (auto simp add: filter_empty_conv)
  from split_list_first [OF this]
  obtain tok ys' where split: "ys = tok @ CHR '' '' # ys'" and tok: "CHR '' '' \<notin> set tok"
    by blast
  from split Suc.prems(1) tok have tok': "\<forall>c \<in> set tok. c \<noteq> CHR '' '' \<and> c \<noteq> CHR '':''"
    by auto
  from Suc.hyps(2) Suc.prems(4) have lt: "k < int (numArgs m)" by linarith
  have s: "s = xs @ tok @ CHR '' '' # (ys' @ CHR '':'' # rest)"
    using Suc.prems(3) split by simp
  have sc: "scan_token s (length s) (length xs) (length xs) = (length xs, length xs + length tok + 1)"
    unfolding s by (rule scan_token_space [OF tok']) simp
  define m1 where "m1 = (if k = -1 then m\<lparr>command := Some tok\<rparr>
        else m\<lparr>args := (args m)[nat k := Some tok]\<rparr>)"
  have o2: "length xs + length tok + 1 =
     (if length xs + length tok + 1 = length s then length xs + length tok + 1 + 1
      else length xs + length tok + 1)"
    by (simp add: s)
  have arg: "take (length xs + length tok + 1 - length xs - 1) (drop (length xs) s) = tok"
    by (simp add: s)
  have lt2: "length xs < length xs + length tok + 1" by simp
  have "\<exists>evs1. collect_args s (length s) k (length xs) m evs =
      collect_args s (length s) (k + 1) (length xs + length tok + 1) m1 evs1"
    unfolding m1_def collect_args_step [OF lt sc o2 lt2, of evs] arg by blast
  then obtain evs1 where step: "collect_args s (length s) k (length xs) m evs =
      collect_args s (length s) (k + 1) (length xs + length tok + 1) m1 evs1" ..
  have tok0: "filter (\<lambda>c. c = CHR '' '') tok = []"
    using tok by (auto simp add: filter_empty_conv)
  have n: "n = length (filter (\<lambda>c. c = CHR '' '') ys')"
    using Suc.hyps(2) split tok0 by simp
  have a: "CHR '':'' \<notin> set ys'" using Suc.prems(1) split by simp
  have b: "ys' = [] \<or> last ys' = CHR '' ''" using Suc.prems(2) split by (auto split: if_splits)
  have c: "s = (xs @ tok @ [CHR '' '']) @ ys' @ CHR '':'' # rest" using s by simp
  have m1: "numArgs m1 = numArgs m" "length (args m1) = length (args m)"
    by (simp_all add: m1_def)
  have d: "int (length (filter (\<lambda>c. c = CHR '' '') ys')) = int (numArgs m1) - 1 - (k + 1)"
    using Suc.prems(4) split tok0 m1 by simp
  have e: "-1 \<le> k + 1" using Suc.prems(5) by simp
  have f: "1 \<le> numArgs m1" "length (args m1) = numArgs m1" using Suc.prems m1 by simp_all
  from Suc.hyps(1) [OF n a b c d e f, of evs1] show ?case
    by (simp add: step)
qed

lemma parse_frame_Inr:
  "parse_frame frame = Inr m \<longleftrightarrow> (\<exists>evs. parse_message frame (length frame) = Inr (m, evs))"
  by (auto simp add: parse_frame_def split: sum.splits)

lemma parse_message_trailing:
  assumes "CHR '':'' \<notin> set pre"
  shows "\<exists>m. parse_frame (pre @ '' :'' @ rest) = Inr m \<and>
           length (args m) = Suc (length (filter (\<lambda>c. c = CHR '' '') pre)) \<and>
           last (args m) = Some rest"
proof -
  define frame where "frame = pre @ '' :'' @ rest"
  define n where "n = count_args frame (length frame) 0 0"
  have "n = spaces_before_colon frame" by (simp add: n_def count_args_frame)
  also have "\<dots> = Suc (length (filter (\<lambda>c. c = CHR '' '') pre))"
    using assms by (simp add: spaces_before_colon_def frame_def
        takeWhile_append takeWhile_eq_all_conv [THEN iffD2])
  finally have n: "n = Suc (length (filter (\<lambda>c. c = CHR '' '') pre))" .
  define m0 where "m0 = \<lparr>command = None, args = replicate n None, numArgs = n\<rparr>"
  have "\<exists>m' evs'. collect_args frame (length frame) (-1) (length ([] :: string)) m0 [] = Inr (m', evs') \<and>
           last (args m') = Some rest"
    by (rule collect_args_trailing [where ys = "pre @ '' ''"])
       (use assms n in \<open>simp_all add: frame_def m0_def\<close>)
  then obtain m' evs' where r: "collect_args frame (length frame) (-1) 0 m0 [] = Inr (m', evs')"
    and l: "last (args m') = Some rest" by auto
  from collect_args_inv [OF r] have len: "length (args m') = n" by (simp add: m0_def)
  have "parse_message frame (length frame) = collect_args frame (length frame) (-1) 0 m0 []"
    by (simp add: parse_message_def Let_def m0_def n_def)
  with r have "parse_frame frame = Inr m'" by (simp add: parse_frame_def)
  with l len n show ?thesis unfolding frame_def by blast
qed

lemma parse_message_count:
  assumes "parse_frame frame = Inr m"
  shows "numArgs m = spaces_before_colon frame \<and> length (args m) = spaces_before_colon frame \<and>
         None \<notin> set (args m) \<and> command m \<noteq> None"
proof -
  define n where "n = count_args frame (length frame) 0 0"
  define m0 where "m0 = \<lparr>command = None, args = replicate n None, numArgs = n\<rparr>"
  from assms obtain evs where r: "collect_args frame (length frame) (-1) 0 m0 [] = Inr (m, evs)"
    by (auto simp add: parse_frame_Inr parse_message_def n_def m0_def Let_def)
  from collect_args_inv [OF r] have a: "numArgs m = n" "length (args m) = n"
    by (simp_all add: m0_def)
  from collect_args_fills [OF r] have b: "(\<forall>i<n. args m ! i \<noteq> None) \<and> command m \<noteq> None"
    by (simp add: m0_def)
  with a have "None \<notin> set (args m)" by (auto simp add: in_set_conv_nth)
  with a b show ?thesis by (simp add: n_def count_args_frame)
qed

text \<open>When the second pass returns a message.\<close>

lemma scan_token_end:
  "\<forall>c \<in> set tok. c \<noteq> CHR '' '' \<and> c \<noteq> CHR '':'' \<Longrightarrow> len = length xs + length tok \<Longrightarrow>
   scan_token (xs @ tok) len st (length xs) = (st, len)"
proof (induction tok arbitrary: xs)
  case Nil
  then show ?case by (simp add: scan_token.simps [of _ _ st "length xs"])
next
  case (Cons c tok)
  from Cons.prems have "scan_token ((xs @ [c]) @ tok) len st (length (xs @ [c])) = (st, len)"
    by (intro Cons.IH) simp_all
  with Cons.prems show ?case
    by (simp add: scan_token.simps [of _ _ st "length xs"])
qed

lemma scan_token_to_colon:
  "\<forall>c \<in> set tok. c \<noteq> CHR '' '' \<and> c \<noteq> CHR '':'' \<Longrightarrow> length xs + length tok < len \<Longrightarrow>
   scan_token (xs @ tok @ CHR '':'' # zs) len st (length xs) = (st + 1, len + 1)"
proof (induction tok arbitrary: xs)
  case Nil
  then show ?case by (simp add: scan_token.simps [of _ len st "length xs"])
next
  case (Cons c tok)
  from Cons.prems have "scan_token ((xs @ [c]) @ tok @ CHR '':'' # zs) len st (length (xs @ [c]))
      = (st + 1, len + 1)"
    by (intro Cons.IH) simp_all
  with Cons.prems show ?case
    by (simp add: scan_token.simps [of _ len st "length xs"])
qed

lemma scan_token_past_end:
  "len < offset \<Longrightarrow> scan_token s len st offset = (st, offset)"
  by (simp add: scan_token.simps [of s len st offset])

text \<open>A frame without a colon.\<close>

lemma collect_args_no_colon:
  assumes "CHR '':'' \<notin> set ys" and "s = xs @ ys"
    and "int (length (filter (\<lambda>c. c = CHR '' '') ys)) = int (numArgs m) - 1 - k"
  shows "if ys \<noteq> [] \<and> last ys = CHR '' ''
         then collect_args s (length s) k (length xs) m evs = Inl Memcpy_negative_length
         else (\<exists>m' evs'. collect_args s (length s) k (length xs) m evs = Inr (m', evs'))"
  using assms
proof (induction "length (filter (\<lambda>c. c = CHR '' '') ys)" arbitrary: xs ys k m evs)
  case 0
  then have nosp: "CHR '' '' \<notin> set ys" by (auto simp add: filter_empty_conv)
  with "0.prems"(1) have tok: "\<forall>c \<in> set ys. c \<noteq> CHR '' '' \<and> c \<noteq> CHR '':''" by auto
  from 0 have k: "k = int (numArgs m) - 1" by simp
  then have lt: "k < int (numArgs m)" by simp
  have sc: "scan_token s (length s) (length xs) (length xs) = (length xs, length s)"
    unfolding "0.prems"(2) by (rule scan_token_end [OF tok]) simp
  have lt2: "length xs < length s + 1" using "0.prems"(2) by simp
  have o2: "length s + 1 = (if length s = length s then length s + 1 else length s)" by simp
  define m1 where "m1 = (if k = -1
        then m\<lparr>command := Some (take (length s + 1 - length xs - 1) (drop (length xs) s))\<rparr>
        else m\<lparr>args := (args m)[nat k := Some (take (length s + 1 - length xs - 1) (drop (length xs) s))]\<rparr>)"
  have "\<exists>evs1. collect_args s (length s) k (length xs) m evs =
      collect_args s (length s) (k + 1) (length s + 1) m1 evs1"
    unfolding m1_def collect_args_step [OF lt sc o2 lt2, of evs] by blast
  then obtain evs1 where step: "collect_args s (length s) k (length xs) m evs =
      collect_args s (length s) (k + 1) (length s + 1) m1 evs1" ..
  have "numArgs m1 = numArgs m" by (simp add: m1_def)
  with k have "\<not> k + 1 < int (numArgs m1)" by simp
  then have fin: "collect_args s (length s) (k + 1) (length s + 1) m1 evs1 = Inr (m1, evs1)"
    by (rule collect_args_done)
  have nl: "\<not> (ys \<noteq> [] \<and> last ys = CHR '' '')" using nosp by (cases ys rule: rev_cases) auto
  show ?case using nl unfolding step fin by auto
next
  case (Suc n)
  then have "filter (\<lambda>c. c = CHR '' '') ys \<noteq> []" by auto
  then have "CHR '' '' \<in> set ys" by (auto simp add: filter_empty_conv)
  from split_list_first [OF this]
  obtain tok ys' where split: "ys = tok @ CHR '' '' # ys'" and tok: "CHR '' '' \<notin> set tok"
    by blast
  from split Suc.prems(1) tok have tok': "\<forall>c \<in> set tok. c \<noteq> CHR '' '' \<and> c \<noteq> CHR '':''"
    by auto
  from Suc.hyps(2) Suc.prems(3) have lt: "k < int (numArgs m)" by linarith
  have s: "s = xs @ tok @ CHR '' '' # ys'" using Suc.prems(2) split by simp
  have sc: "scan_token s (length s) (length xs) (length xs) = (length xs, length xs + length tok + 1)"
    unfolding s by (rule scan_token_space [OF tok']) simp
  have tok0: "filter (\<lambda>c. c = CHR '' '') tok = []"
    using tok by (auto simp add: filter_empty_conv)
  have n: "n = length (filter (\<lambda>c. c = CHR '' '') ys')"
    using Suc.hyps(2) split tok0 by simp
  define o2 where "o2 = (if length xs + length tok + 1 = length s then length xs + length tok + 1 + 1
      else length xs + length tok + 1)"
  define m1 where "m1 = (if k = -1 then m\<lparr>command := Some (take (o2 - length xs - 1) (drop (length xs) s))\<rparr>
        else m\<lparr>args := (args m)[nat k := Some (take (o2 - length xs - 1) (drop (length xs) s))]\<rparr>)"
  have lt2: "length xs < o2" by (simp add: o2_def)
  have "\<exists>evs1. collect_args s (length s) k (length xs) m evs =
      collect_args s (length s) (k + 1) o2 m1 evs1"
    unfolding m1_def collect_args_step [OF lt sc o2_def lt2, of evs] by blast
  then obtain evs1 where step: "collect_args s (length s) k (length xs) m evs =
      collect_args s (length s) (k + 1) o2 m1 evs1" ..
  have m1: "numArgs m1 = numArgs m" by (simp add: m1_def)
  have d: "int (length (filter (\<lambda>c. c = CHR '' '') ys')) = int (numArgs m1) - 1 - (k + 1)"
    using Suc.prems(3) split tok0 m1 by simp
  have a: "CHR '':'' \<notin> set ys'" using Suc.prems(1) split by simp
  show ?case
  proof (cases "ys' = []")
    case True
    then have o2: "o2 = length s + 1" by (simp add: o2_def s)
    from True n d have lt': "k + 1 < int (numArgs m1)" by simp
    have sc': "scan_token s (length s) o2 o2 = (o2, o2)"
      unfolding o2 by (rule scan_token_past_end) simp
    have f: "collect_args s (length s) (k + 1) o2 m1 evs1 = Inl Memcpy_negative_length"
      by (rule collect_args_fault [OF lt' sc' refl]) (simp add: o2)
    from True split f step show ?thesis by simp
  next
    case False
    then have o2: "o2 = length (xs @ tok @ [CHR '' ''])" by (simp add: o2_def s)
    have c: "s = (xs @ tok @ [CHR '' '']) @ ys'" using s by simp
    from False split have l: "last ys = last ys'" by simp
    note IH = Suc.hyps(1) [OF n a c d, of evs1, folded o2]
    from IH False l split show ?thesis unfolding step by (auto split: if_splits)
  qed
qed

text \<open>A frame with a colon.\<close>

lemma collect_args_colon:
  assumes "CHR '':'' \<notin> set ys" and "s = xs @ ys @ CHR '':'' # rest"
    and "int (length (filter (\<lambda>c. c = CHR '' '') ys)) = int (numArgs m) - 1 - k"
  shows "\<exists>m' evs'. collect_args s (length s) k (length xs) m evs = Inr (m', evs')"
  using assms
proof (induction "length (filter (\<lambda>c. c = CHR '' '') ys)" arbitrary: xs ys k m evs)
  case 0
  then have nosp: "CHR '' '' \<notin> set ys" by (auto simp add: filter_empty_conv)
  with "0.prems"(1) have tok: "\<forall>c \<in> set ys. c \<noteq> CHR '' '' \<and> c \<noteq> CHR '':''" by auto
  from 0 have k: "k = int (numArgs m) - 1" by simp
  then have lt: "k < int (numArgs m)" by simp
  have sc: "scan_token s (length s) (length xs) (length xs) = (length xs + 1, length s + 1)"
    unfolding "0.prems"(2) by (rule scan_token_to_colon [OF tok]) simp
  have lt2: "length xs + 1 < length s + 1" using "0.prems"(2) by simp
  have o2: "length s + 1 = (if length s + 1 = length s then length s + 1 + 1 else length s + 1)"
    by simp
  define m1 where "m1 = (if k = -1
        then m\<lparr>command := Some (take (length s + 1 - (length xs + 1) - 1) (drop (length xs + 1) s))\<rparr>
        else m\<lparr>args := (args m)[nat k := Some (take (length s + 1 - (length xs + 1) - 1) (drop (length xs + 1) s))]\<rparr>)"
  have "\<exists>evs1. collect_args s (length s) k (length xs) m evs =
      collect_args s (length s) (k + 1) (length s + 1) m1 evs1"
    unfolding m1_def collect_args_step [OF lt sc o2 lt2, of evs] by blast
  then obtain evs1 where step: "collect_args s (length s) k (length xs) m evs =
      collect_args s (length s) (k + 1) (length s + 1) m1 evs1" ..
  have "numArgs m1 = numArgs m" by (simp add: m1_def)
  with k have "\<not> k + 1 < int (numArgs m1)" by simp
  then have fin: "collect_args s (length s) (k + 1) (length s + 1) m1 evs1 = Inr (m1, evs1)"
    by (rule collect_args_done)
  show ?case unfolding step fin by blast
next
  case (Suc n)
  then have "filter (\<lambda>c. c = CHR '' '') ys \<noteq> []" by auto
  then have "CHR '' '' \<in> set ys" by (auto simp add: filter_empty_conv)
  from split_list_first [OF this]
  obtain tok ys' where split: "ys = tok @ CHR '' '' # ys'" and tok: "CHR '' '' \<notin> set tok"
    by blast
  from split Suc.prems(1) tok have tok': "\<forall>c \<in> set tok. c \<noteq> CHR '' '' \<and> c \<noteq> CHR '':''"
    by auto
  from Suc.hyps(2) Suc.prems(3) have lt: "k < int (numArgs m)" by linarith
  have s: "s = xs @ tok @ CHR '' '' # (ys' @ CHR '':'' # rest)" using Suc.prems(2) split by simp
  have sc: "scan_token s (length s) (length xs) (length xs) = (length xs, length xs + length tok + 1)"
    unfolding s by (rule scan_token_space [OF tok']) simp
  have tok0: "filter (\<lambda>c. c = CHR '' '') tok = []"
    using tok by (auto simp add: filter_empty_conv)
  have n: "n = length (filter (\<lambda>c. c = CHR '' '') ys')"
    using Suc.hyps(2) split tok0 by simp
  define m1 where "m1 = (if k = -1
        then m\<lparr>command := Some (take (length xs + length tok + 1 - length xs - 1) (drop (length xs) s))\<rparr>
        else m\<lparr>args := (args m)[nat k := Some (take (length xs + length tok + 1 - length xs - 1) (drop (length xs) s))]\<rparr>)"
  have o2: "length xs + length tok + 1 =
     (if length xs + length tok + 1 = length s then length xs + length tok + 1 + 1
      else length xs + length tok + 1)"
    by (simp add: s)
  have lt2: "length xs < length xs + length tok + 1" by simp
  have "\<exists>evs1. collect_args s (length s) k (length xs) m evs =
      collect_args s (length s) (k + 1) (length xs + length tok + 1) m1 evs1"
    unfolding m1_def collect_args_step [OF lt sc o2 lt2, of evs] by blast
  then obtain evs1 where step: "collect_args s (length s) k (length xs) m evs =
      collect_args s (length s) (k + 1) (length xs + length tok + 1) m1 evs1" ..
  have m1: "numArgs m1 = numArgs m" by (simp add: m1_def)
  have d: "int (length (filter (\<lambda>c. c = CHR '' '') ys')) = int (numArgs m1) - 1 - (k + 1)"
    using Suc.prems(3) split tok0 m1 by simp
  have a: "CHR '':'' \<notin> set ys'" using Suc.prems(1) split by simp
  have c: "s = (xs @ tok @ [CHR '' '']) @ ys' @ CHR '':'' # rest" using s by simp
  from Suc.hyps(1) [OF n a c d, of evs1] show ?case by (simp add: step)
qed

lemma parse_frame_total_iff:
  "(\<exists>m. parse_frame frame = Inr m) \<longleftrightarrow>
     \<not> (CHR '':'' \<notin> set frame \<and> frame \<noteq> [] \<and> last frame = CHR '' '')"
proof -
  define n where "n = count_args frame (length frame) 0 0"
  define m0 where "m0 = \<lparr>command = None, args = replicate n None, numArgs = n\<rparr>"
  have pm: "parse_message frame (length frame) = collect_args frame (length frame) (-1) 0 m0 []"
    by (simp add: parse_message_def Let_def m0_def n_def)
  have n: "n = spaces_before_colon frame" by (simp add: n_def count_args_frame)
  show ?thesis
  proof (cases "CHR '':'' \<in> set frame")
    case True
    from split_list_first [OF this] obtain ys rest
      where fr: "frame = ys @ CHR '':'' # rest" and ys: "CHR '':'' \<notin> set ys" by blast
    have "n = length (filter (\<lambda>c. c = CHR '' '') ys)"
      using ys by (simp add: n spaces_before_colon_def fr takeWhile_append
          takeWhile_eq_all_conv [THEN iffD2])
    then have "int (length (filter (\<lambda>c. c = CHR '' '') ys)) = int (numArgs m0) - 1 - (-1)"
      by (simp add: m0_def)
    moreover have "frame = [] @ ys @ CHR '':'' # rest" using fr by simp
    ultimately have "\<exists>m' evs'. collect_args frame (length frame) (-1) (length ([] :: string)) m0 []
        = Inr (m', evs')"
      by (rule collect_args_colon [OF ys, rotated])
    then have "\<exists>m' evs'. parse_message frame (length frame) = Inr (m', evs')" by (simp add: pm)
    with True show ?thesis by (auto simp add: parse_frame_def)
  next
    case False
    then have tw: "takeWhile (\<lambda>c. c \<noteq> CHR '':'') frame = frame"
      by (auto simp add: takeWhile_eq_all_conv)
    have "n = length (filter (\<lambda>c. c = CHR '' '') frame)"
      unfolding n spaces_before_colon_def tw by (rule refl)
    then have "int (length (filter (\<lambda>c. c = CHR '' '') frame)) = int (numArgs m0) - 1 - (-1)"
      by (simp add: m0_def)
    moreover have "frame = [] @ frame" by simp
    ultimately have "if frame \<noteq> [] \<and> last frame = CHR '' ''
         then collect_args frame (length frame) (-1) (length ([] :: string)) m0 [] = Inl Memcpy_negative_length
         else (\<exists>m' evs'. collect_args frame (length frame) (-1) (length ([] :: string)) m0 [] = Inr (m', evs'))"
      by (rule collect_args_no_colon [OF False, rotated])
    with False show ?thesis by (auto simp add: parse_frame_def pm split: if_splits sum.splits)
  qed
qed

text \<open>The parser reads the frame and nothing after it.\<close>

lemma count_args_take:
  "count_args (take len s) len offset n = count_args s len offset n"
proof (induction s len offset n rule: count_args.induct)
  case (1 s len offset n)
  show ?case
  proof (cases "offset < len")
    case False
    then show ?thesis
      by (simp add: count_args.simps [of s len offset n] count_args.simps [of "take len s" len offset n])
  next
    case True
    with "1.IH" show ?thesis
      by (simp add: count_args.simps [of s len offset n] count_args.simps [of "take len s" len offset n])
  qed
qed

lemma scan_token_take:
  "scan_token (take len s) len st offset = scan_token s len st offset"
proof (induction s len st offset rule: scan_token.induct)
  case (1 s len st offset)
  show ?case
  proof (cases "offset < len")
    case False
    then show ?thesis
      by (simp add: scan_token.simps [of s len st offset] scan_token.simps [of "take len s" len st offset])
  next
    case True
    with "1.IH" show ?thesis
      by (simp add: scan_token.simps [of s len st offset] scan_token.simps [of "take len s" len st offset])
  qed
qed

lemma scan_token_bounds:
  "scan_token s len st offset = (st', o1) \<Longrightarrow> offset \<le> len + 1 \<Longrightarrow>
   o1 \<le> len + 1 \<and> st \<le> st' \<and> st' \<le> st + 1"
proof (induction s len st offset rule: scan_token.induct)
  case (1 s len st offset)
  then show ?case
    by (simp add: scan_token.simps [of s len st offset] split: if_splits)
qed

lemma collect_args_take:
  "offset \<le> len + 1 \<Longrightarrow>
   collect_args (take len s) len k offset m evs = collect_args s len k offset m evs"
proof (induction "nat (int (numArgs m) - k)" arbitrary: k offset m evs)
  case 0
  then show ?case by (simp add: collect_args_done)
next
  case (Suc n)
  then have lt: "k < int (numArgs m)" by linarith
  obtain st o1 where sc: "scan_token s len offset offset = (st, o1)" by force
  then have sc': "scan_token (take len s) len offset offset = (st, o1)"
    by (simp add: scan_token_take)
  define o2 where "o2 = (if o1 = len then o1 + 1 else o1)"
  from scan_token_bounds [OF sc Suc.prems] have b: "o2 \<le> len + 1" "offset \<le> st"
    by (simp_all add: o2_def)
  show ?case
  proof (cases "st < o2")
    case False
    with lt sc sc' o2_def show ?thesis by (simp add: collect_args_fault)
  next
    case True
    have arg: "take (o2 - st - 1) (drop st (take len s)) = take (o2 - st - 1) (drop st s)"
      using b by (simp add: drop_take min_def)
    define m1 where "m1 = (if k = -1 then m\<lparr>command := Some (take (o2 - st - 1) (drop st s))\<rparr>
        else m\<lparr>args := (args m)[nat k := Some (take (o2 - st - 1) (drop st s))]\<rparr>)"
    have n: "n = nat (int (numArgs m1) - (k + 1))"
    proof -
      have "numArgs m1 = numArgs m" by (simp add: m1_def)
      with Suc.hyps(2) show ?thesis by linarith
    qed
    show ?thesis
      unfolding collect_args_step [OF lt sc o2_def True] collect_args_step [OF lt sc' o2_def True] arg
      using Suc.hyps(1) [OF n b(1)] unfolding m1_def .
  qed
qed

lemma parse_message_take:
  "parse_message (take message_length message_str) message_length =
   parse_message message_str message_length"
  by (simp add: parse_message_def count_args_take collect_args_take)

lemma parse_frame_take:
  "message_length \<le> length message_str \<Longrightarrow>
   parse_frame (take message_length message_str) =
     (case parse_message message_str message_length of Inl e \<Rightarrow> Inl e | Inr (m, evs) \<Rightarrow> Inr m)"
  by (simp add: parse_frame_def parse_message_take min_def)

section \<open>The parser: claims\<close>

text \<open>
  C10. \<open>parse_message\<close> is not total. The empty frame does parse to an empty command
  and no arguments. The frame \<open>NICK\<close> followed by one space does not parse: after the
  space at the last byte the test \<open>offset == message_length\<close> fires as well, the command
  becomes \<open>NICK\<close> with the space, and the loop runs once more with \<open>arg_len = 0\<close>,
  which calls \<open>memcpy\<close> with length \<open>-1\<close>. In general a message is returned for a
  frame if and only if the frame has a colon, or is empty, or does not end in a space.
\<close>

theorem C10_parse_message_faults_on_trailing_space:
  "parse_frame [] = Inr \<lparr>command = Some [], args = [], numArgs = 0\<rparr> \<and>
   parse_message ''NICK '' 5 = Inl Memcpy_negative_length \<and>
   ((\<exists>m. parse_frame frame = Inr m) \<longleftrightarrow>
      \<not> (CHR '':'' \<notin> set frame \<and> frame \<noteq> [] \<and> last frame = CHR '' ''))"
proof (intro conjI)
  show "parse_frame [] = Inr \<lparr>command = Some [], args = [], numArgs = 0\<rparr>"
    by (simp add: parse_frame_def parse_message_def count_args.simps scan_token.simps
          collect_args.simps Let_def)
  show "parse_message ''NICK '' 5 = Inl Memcpy_negative_length"
    by (simp add: parse_message_def count_args.simps scan_token.simps collect_args.simps Let_def)
  show "(\<exists>m. parse_frame frame = Inr m) \<longleftrightarrow>
      \<not> (CHR '':'' \<notin> set frame \<and> frame \<noteq> [] \<and> last frame = CHR '' '')"
    by (rule parse_frame_total_iff)
qed

text \<open>
  C3. The frame \<open>USER bob 0 0 :Bob Smith\<close> parses as stated: command \<open>USER\<close>, four
  arguments, the last of them \<open>Bob Smith\<close>. The general rule does not hold: the second
  pass leaves at a colon anywhere in a token, not only at the start of one, and then
  increments \<open>start_offset\<close>, which is the start of the token and not the place of the
  colon. In \<open>PRIVMSG a:b :hi\<close> the token \<open>:hi\<close> begins with a colon, but the scan has
  already ended inside \<open>a:b\<close>: the only argument is \<open>:b :hi\<close>, the \<open>a\<close> is lost and the
  colon is kept. \<open>USER a:b 0 0 :Real Name\<close> parses to one argument in the same way, so
  that \<open>process_message\<close> calls \<open>get_arg (m, 3)\<close> on an array of one entry. (Where the
  first colon of the frame comes right after a space the rule does hold: lemma
  \<open>parse_message_trailing\<close> above.)
\<close>

theorem C3_colon_inside_a_token:
  "parse_frame ''USER bob 0 0 :Bob Smith'' =
     Inr \<lparr>command = Some ''USER'',
          args = [Some ''bob'', Some ''0'', Some ''0'', Some ''Bob Smith''], numArgs = 4\<rparr> \<and>
   parse_frame ''PRIVMSG a:b :hi'' =
     Inr \<lparr>command = Some ''PRIVMSG'', args = [Some '':b :hi''], numArgs = 1\<rparr> \<and>
   parse_frame ''USER a:b 0 0 :Real Name'' =
     Inr \<lparr>command = Some ''USER'', args = [Some '':b 0 0 :Real Name''], numArgs = 1\<rparr> \<and>
   process_message rpl_welcome ''USER a:b 0 0 :Real Name'' 23 c = Inl Arg_index_out_of_bounds"
  by (simp add: parse_frame_def process_message_def parse_message_def handle_command_def
        get_arg_def cstr_def count_args.simps scan_token.simps collect_args.simps Let_def)

text \<open>
  C4, as the code has it. The first pass counts the spaces before the first colon. When a
  message is returned, that count is \<open>numArgs\<close> and the length of \<open>args\<close>, and every
  entry of \<open>args\<close> has been assigned: the count is the number of arguments the parser
  produces, the command not counted and the trailing argument counted.
\<close>

theorem C4_argument_count:
  "count_args frame (length frame) 0 0 = spaces_before_colon frame \<and>
   (parse_frame frame = Inr m \<longrightarrow>
      numArgs m = spaces_before_colon frame \<and>
      length (args m) = spaces_before_colon frame \<and>
      None \<notin> set (args m))"
  using count_args_frame parse_message_count by blast

theorem C4_argument_count_witness:
  "parse_frame ''JOIN #a #b'' =
     Inr \<lparr>command = Some ''JOIN'', args = [Some ''#a'', Some ''#b''], numArgs = 2\<rparr> \<and>
   spaces_before_colon ''JOIN #a #b'' = 2"
proof -
  have p: "parse_frame ''JOIN #a #b'' =
     Inr \<lparr>command = Some ''JOIN'', args = [Some ''#a'', Some ''#b''], numArgs = 2\<rparr>"
    by (simp add: parse_frame_def parse_message_def count_args.simps scan_token.simps
          collect_args.simps Let_def)
  from C4_argument_count [of "''JOIN #a #b''"
      "\<lparr>command = Some ''JOIN'', args = [Some ''#a'', Some ''#b''], numArgs = 2\<rparr>"] p
  show ?thesis by simp
qed

text \<open>
  C4 as the claim states it fails on a frame with a trailing argument: four spaces stand
  before the colon of \<open>USER bob 0 0 :Bob Smith\<close>, and the parser produces four
  arguments, of which the last is the trailing one; without it there are three.
\<close>

theorem C4_counterexample:
  "spaces_before_colon ''USER bob 0 0 :Bob Smith'' = 4 \<and>
   parse_frame ''USER bob 0 0 :Bob Smith'' =
     Inr \<lparr>command = Some ''USER'',
          args = [Some ''bob'', Some ''0'', Some ''0'', Some ''Bob Smith''], numArgs = 4\<rparr> \<and>
   length (butlast [Some ''bob'', Some ''0'', Some ''0'', Some ''Bob Smith'']) = 3"
  by (simp add: spaces_before_colon_def parse_frame_def parse_message_def count_args.simps
        scan_token.simps collect_args.simps Let_def)

section \<open>Fetching arguments\<close>

lemma get_args_effect:
  "get_args m js = Inr (vs, m1) \<Longrightarrow>
   length (args m1) = length (args m) \<and>
   (\<forall>i. i \<in> set js \<longrightarrow> i < length (args m) \<and> args m1 ! i = None) \<and>
   (\<forall>i. i \<notin> set js \<longrightarrow> args m1 ! i = args m ! i)"
proof (induction js arbitrary: m vs)
  case Nil
  then show ?case by simp
next
  case (Cons j js)
  from Cons.prems obtain v m' vs' where g: "get_arg m j = Inr (v, m')"
    and r: "get_args m' js = Inr (vs', m1)"
    by (auto split: sum.splits)
  from g have j: "j < length (args m)" and m': "args m' = (args m)[j := None]"
    by (auto simp add: get_arg_def split: if_splits)
  from Cons.IH [OF r] have L: "length (args m1) = length (args m')"
    and A: "\<And>i. i \<in> set js \<Longrightarrow> i < length (args m') \<and> args m1 ! i = None"
    and B: "\<And>i. i \<notin> set js \<Longrightarrow> args m1 ! i = args m' ! i"
    by auto
  show ?case
  proof (intro conjI allI impI)
    show "length (args m1) = length (args m)" using L m' by simp
  next
    fix i assume "i \<in> set (j # js)"
    then show "i < length (args m)" using A [of i] j m' by auto
  next
    fix i assume i: "i \<in> set (j # js)"
    show "args m1 ! i = None"
    proof (cases "i \<in> set js")
      case True
      then show ?thesis using A by simp
    next
      case False
      with i have "i = j" by simp
      with False B [of i] m' j show ?thesis by simp
    qed
  next
    fix i assume "i \<notin> set (j # js)"
    then show "args m1 ! i = args m ! i" using B [of i] m' by simp
  qed
qed

text \<open>
  C7. Take a message that \<open>parse_message\<close> returned and an index below \<open>numArgs\<close>. The
  entry holds the value \<open>v\<close> the parser stored. After any calls of \<open>get_arg\<close> on the
  message, \<open>get_arg\<close> at the index returns \<open>v\<close> if none of them was at that index (it is
  the first retrieval), and \<open>NULL\<close> if one was (it is a later retrieval).
\<close>

theorem C7_get_arg_once:
  assumes "parse_frame frame = Inr m" and "i < numArgs m"
  shows "\<exists>v. args m ! i = Some v \<and>
           (\<forall>js vs m1. get_args m js = Inr (vs, m1) \<longrightarrow>
              (\<exists>m2. get_arg m1 i = Inr (if i \<in> set js then None else Some v, m2)))"
proof -
  from parse_message_count [OF assms(1)] assms(2)
  have len: "i < length (args m)" and "args m ! i \<noteq> None"
    by (auto simp add: in_set_conv_nth)
  then obtain v where v: "args m ! i = Some v" by auto
  have "\<exists>m2. get_arg m1 i = Inr (if i \<in> set js then None else Some v, m2)"
    if "get_args m js = Inr (vs, m1)" for js vs m1
    using get_args_effect [OF that] len v by (auto simp add: get_arg_def)
  with v show ?thesis by blast
qed

theorem C7_get_arg_once_witness:
  "\<exists>m. parse_frame ''NICK alice'' = Inr m \<and> 0 < numArgs m \<and>
       (\<exists>vs m1. get_args m [0, 0] = Inr (vs, m1) \<and> vs = [Some ''alice'', None]) \<and>
       (\<exists>m2. get_arg m 0 = Inr (Some ''alice'', m2))"
proof -
  define m where "m = \<lparr>command = Some ''NICK'', args = [Some ''alice''], numArgs = 1\<rparr>"
  have p: "parse_frame ''NICK alice'' = Inr m"
    by (simp add: m_def parse_frame_def parse_message_def count_args.simps scan_token.simps
          collect_args.simps Let_def)
  have n: "0 < numArgs m" by (simp add: m_def)
  from C7_get_arg_once [OF p n] obtain v where v: "args m ! 0 = Some v"
    and all: "\<And>js vs m1. get_args m js = Inr (vs, m1) \<Longrightarrow>
                \<exists>m2. get_arg m1 0 = Inr (if 0 \<in> set js then None else Some v, m2)"
    by blast
  from v have v': "v = ''alice''" by (simp add: m_def)
  from all [of "[]" "[]" m] v' have first: "\<exists>m2. get_arg m 0 = Inr (Some ''alice'', m2)"
    by simp
  then obtain m2 where g1: "get_arg m 0 = Inr (Some ''alice'', m2)" ..
  then have "get_args m [0] = Inr ([Some ''alice''], m2)" by simp
  from all [OF this] obtain m3 where g2: "get_arg m2 0 = Inr (None, m3)" by auto
  from g1 g2 have "get_args m [0, 0] = Inr ([Some ''alice'', None], m3)" by simp
  with p n first show ?thesis by blast
qed

section \<open>What one message does to the client\<close>

lemma parse_message_sends: "parse_message s n = Inr (m, evs) \<Longrightarrow> sends evs = []"
  using collect_args_inv [of s n "-1" 0 _ "[]" m evs]
  by (simp add: parse_message_def Let_def)

lemma handle_command_effect:
  "handle_command m c = Inr (c1, evs1) \<Longrightarrow>
   sends evs1 = [] \<and> welcomeMessageSent c1 = welcomeMessageSent c \<and>
   (nick c \<noteq> None \<longrightarrow> nick c1 \<noteq> None) \<and> (username c \<noteq> None \<longrightarrow> username c1 \<noteq> None)"
  by (auto simp add: handle_command_def split: option.splits if_splits sum.splits prod.splits)

lemma send_welcome_message_effect:
  "send_welcome_message rpl c = Inr (c2, w) \<Longrightarrow>
   c2 = c\<lparr>welcomeMessageSent := True\<rparr> \<and> nick c \<noteq> None \<and> username c \<noteq> None \<and> sends w \<noteq> []"
  by (auto simp add: send_welcome_message_def send_data_def split: option.splits)

lemma send_welcome_message_total:
  "nick c \<noteq> None \<Longrightarrow> username c \<noteq> None \<Longrightarrow> \<exists>w. send_welcome_message rpl c = Inr (c\<lparr>welcomeMessageSent := True\<rparr>, w)"
  by (auto simp add: send_welcome_message_def)

lemma process_message_effect:
  assumes "process_message rpl message message_length c = Inr (c', evs)"
  shows "if nick c' \<noteq> None \<and> username c' \<noteq> None \<and> \<not> welcomeMessageSent c
         then welcomeMessageSent c' \<and>
              (\<exists>c1 w. send_welcome_message rpl c1 = Inr (c', w) \<and> sends evs = sends w)
         else sends evs = [] \<and> welcomeMessageSent c' = welcomeMessageSent c"
proof -
  from assms obtain m evs0 where p: "parse_message message message_length = Inr (m, evs0)"
    by (auto simp add: process_message_def split: sum.splits)
  from assms p obtain c1 evs1 where h: "handle_command m c = Inr (c1, evs1)"
    by (auto simp add: process_message_def split: sum.splits)
  note e0 = parse_message_sends [OF p] and e1 = handle_command_effect [OF h]
  show ?thesis
  proof (cases "nick c1 \<noteq> None \<and> username c1 \<noteq> None \<and> \<not> welcomeMessageSent c1")
    case True
    with assms p h obtain w where w: "send_welcome_message rpl c1 = Inr (c', w)"
      and evs: "evs = evs0 @ evs1 @ w"
      by (auto simp add: process_message_def split: sum.splits)
    from send_welcome_message_effect [OF w] True e0 e1 evs w show ?thesis
      by (auto simp add: sends_append)
  next
    case False
    with assms p h have "c' = c1" and "evs = evs0 @ evs1"
      by (auto simp add: process_message_def split: sum.splits)
    with False e0 e1 show ?thesis by (auto simp add: sends_append)
  qed
qed

lemma process_message_keeps_identity:
  assumes "process_message rpl message message_length c = Inr (c', evs)"
  shows "(nick c \<noteq> None \<longrightarrow> nick c' \<noteq> None) \<and> (username c \<noteq> None \<longrightarrow> username c' \<noteq> None)"
proof -
  from assms obtain m evs0 where p: "parse_message message message_length = Inr (m, evs0)"
    by (auto simp add: process_message_def split: sum.splits)
  from assms p obtain c1 evs1 where h: "handle_command m c = Inr (c1, evs1)"
    by (auto simp add: process_message_def split: sum.splits)
  from assms p h have "nick c' = nick c1 \<and> username c' = username c1"
    by (auto simp add: process_message_def dest!: send_welcome_message_effect
          split: sum.splits if_splits)
  with handle_command_effect [OF h] show ?thesis by simp
qed

section \<open>The two loops: lemmas\<close>

lemma client_loop_append:
  "client_loop h bsize buffer buffer_offset c tr (reads @ later) =
     (case client_loop h bsize buffer buffer_offset c tr reads of
        Waiting_for_read buffer' buffer_offset' c' tr' \<Rightarrow>
          client_loop h bsize buffer' buffer_offset' c' tr' later
      | out \<Rightarrow> out)"
proof (induction reads arbitrary: buffer buffer_offset c tr)
  case Nil
  then show ?case by simp
next
  case (Cons r reads)
  show ?case
  proof (cases r)
    case Read_failed
    then show ?thesis by simp
  next
    case (Read_bytes bytes)
    then show ?thesis
      by (simp add: Cons.IH Let_def split: sum.splits prod.splits)
  qed
qed

lemma scan_buffer_no_boundary:
  "buffer_offset \<le> length buffer \<Longrightarrow>
   \<forall>j. i \<le> j \<and> j + 1 < buffer_offset \<longrightarrow> \<not> (buffer ! j = CHR 0x0D \<and> buffer ! (j + 1) = CHR 0x0A) \<Longrightarrow>
   scan_buffer h buffer buffer_offset i mso c evs = Inr (mso, c, evs)"
proof (induction "buffer_offset - i" arbitrary: i)
  case 0
  then show ?case by (simp add: scan_buffer.simps [of h buffer buffer_offset i])
next
  case (Suc n)
  show ?case
  proof (cases "i + 1 < buffer_offset")
    case False
    then show ?thesis by (simp add: scan_buffer.simps [of h buffer buffer_offset i])
  next
    case True
    with Suc.prems have nb: "\<not> (buffer ! i = CHR 0x0D \<and> buffer ! (i + 1) = CHR 0x0A)"
      by blast
    have "scan_buffer h buffer buffer_offset (i + 1) mso c evs = Inr (mso, c, evs)"
      using Suc.hyps(2) Suc.prems by (intro Suc.hyps(1)) auto
    with True nb Suc.prems(1) show ?thesis
      by (auto simp add: scan_buffer.simps [of h buffer buffer_offset i])
  qed
qed

text \<open>The length passed to the handler is never negative.\<close>

lemma scan_buffer_length_not_negative:
  assumes h: "\<And>message n st. h message n st \<noteq> Inl Negative_message_length"
  shows "mso \<le> i + 1 \<Longrightarrow> (mso = i + 1 \<longrightarrow> buffer ! i \<noteq> CHR 0x0D) \<Longrightarrow>
     scan_buffer h buffer buffer_offset i mso c evs \<noteq> Inl Negative_message_length"
proof (induction "buffer_offset - i" arbitrary: i mso c evs)
  case 0
  then show ?case by (simp add: scan_buffer.simps [of h buffer buffer_offset i])
next
  case (Suc n)
  show ?case
  proof (cases "i + 1 < buffer_offset \<and> i + 1 < length buffer")
    case False
    then show ?thesis by (auto simp add: scan_buffer.simps [of h buffer buffer_offset i])
  next
    case True
    have n: "n = buffer_offset - (i + 1)" using Suc.hyps(2) by simp
    show ?thesis
    proof (cases "buffer ! i = CHR 0x0D \<and> buffer ! (i + 1) = CHR 0x0A")
      case False
      from Suc.prems have "mso \<le> i + 1 + 1" and "mso = i + 1 + 1 \<longrightarrow> buffer ! (i + 1) \<noteq> CHR 0x0D"
        by simp_all
      from Suc.hyps(1) [OF n this] True False show ?thesis
        by (auto simp add: scan_buffer.simps [of h buffer buffer_offset i])
    next
      case boundary: True
      with Suc.prems have le: "\<not> i < mso" by auto
      have "i + 2 \<le> i + 1 + 1" and "i + 2 = i + 1 + 1 \<longrightarrow> buffer ! (i + 1) \<noteq> CHR 0x0D"
        using boundary by simp_all
      note IH = Suc.hyps(1) [OF n this]
      show ?thesis
      proof (cases "h (drop mso buffer) (i - mso) c")
        case (Inl e)
        with h [of "drop mso buffer" "i - mso" c] True boundary le show ?thesis
          by (auto simp add: scan_buffer.simps [of h buffer buffer_offset i])
      next
        case (Inr r)
        with IH True boundary le show ?thesis
          by (cases r) (auto simp add: scan_buffer.simps [of h buffer buffer_offset i])
      qed
    qed
  qed
qed

lemma collect_args_faults:
  "collect_args s len k offset m evs = Inl e \<Longrightarrow> e = Memcpy_negative_length"
proof (induction "nat (int (numArgs m) - k)" arbitrary: k offset m evs)
  case 0
  then show ?case by (simp add: collect_args_done)
next
  case (Suc n)
  then have lt: "k < int (numArgs m)" by linarith
  obtain st o1 where sc: "scan_token s len offset offset = (st, o1)" by force
  define o2 where "o2 = (if o1 = len then o1 + 1 else o1)"
  define m1 where "m1 = (if k = -1 then m\<lparr>command := Some (take (o2 - st - 1) (drop st s))\<rparr>
        else m\<lparr>args := (args m)[nat k := Some (take (o2 - st - 1) (drop st s))]\<rparr>)"
  show ?case
  proof (cases "st < o2")
    case False
    with Suc.prems lt sc o2_def show ?thesis by (simp add: collect_args_fault)
  next
    case True
    from Suc.prems obtain evs1 where rec: "collect_args s len (k + 1) o2 m1 evs1 = Inl e"
      by (simp add: collect_args_step [OF lt sc o2_def True] m1_def)
    have "numArgs m1 = numArgs m" by (simp add: m1_def)
    with Suc.hyps(2) have n: "n = nat (int (numArgs m1) - (k + 1))" by linarith
    from Suc.hyps(1) [OF n rec] show ?thesis .
  qed
qed

lemma process_message_faults:
  "process_message rpl message n c \<noteq> Inl Negative_message_length"
proof
  assume a: "process_message rpl message n c = Inl Negative_message_length"
  show False
  proof (cases "parse_message message n")
    case (Inl e)
    then have "e = Memcpy_negative_length"
      by (auto simp add: parse_message_def Let_def dest: collect_args_faults)
    with a Inl show False by (simp add: process_message_def)
  next
    case (Inr r)
    with a show False
      by (auto simp add: process_message_def handle_command_def get_arg_def
            send_welcome_message_def
            split: sum.splits prod.splits option.splits if_splits)
  qed
qed

lemma process_buffered_messages_length_not_negative:
  "process_buffered_messages rpl buffer bsize buffer_offset c \<noteq> Inl Negative_message_length"
  "process_buffered_messages_with record_frame buffer bsize buffer_offset frames
     \<noteq> Inl Negative_message_length"
proof -
  have "scan_buffer (process_message rpl) buffer buffer_offset 1 0 c [] \<noteq> Inl Negative_message_length"
    by (rule scan_buffer_length_not_negative) (simp_all add: process_message_faults)
  then show "process_buffered_messages rpl buffer bsize buffer_offset c \<noteq> Inl Negative_message_length"
    by (auto simp add: process_buffered_messages_def process_buffered_messages_with_def
          split: sum.splits prod.splits if_splits)
  have "scan_buffer record_frame buffer buffer_offset 1 0 frames [] \<noteq> Inl Negative_message_length"
    by (rule scan_buffer_length_not_negative) (simp_all add: record_frame_def)
  then show "process_buffered_messages_with record_frame buffer bsize buffer_offset frames
     \<noteq> Inl Negative_message_length"
    by (auto simp add: process_buffered_messages_with_def split: sum.splits prod.splits if_splits)
qed

lemma overflow_step:
  assumes "length buffer = bsize" and "buffer_offset + length bytes = bsize" and "0 < bsize"
    and "\<forall>j. 1 \<le> j \<and> j + 1 < bsize \<longrightarrow>
           \<not> ((take buffer_offset buffer @ bytes) ! j = CHR 0x0D \<and>
              (take buffer_offset buffer @ bytes) ! (j + 1) = CHR 0x0A)"
  shows "client_loop h bsize buffer buffer_offset c tr (Read_bytes bytes # reads) =
     Undefined_behaviour Memcpy_out_of_bounds
       (tr @ [Log WARNING
          ''Buffer full of an oversized / invalid message. Dropping buffered data'' []])"
proof -
  have b1: "take buffer_offset buffer @ bytes @ drop (buffer_offset + length bytes) buffer
            = take buffer_offset buffer @ bytes"
    using assms by simp
  have len: "length (take buffer_offset buffer @ bytes) = bsize" using assms by auto
  have sc: "scan_buffer h (take buffer_offset buffer @ bytes) bsize 1 0 c [] = Inr (0, c, [])"
    by (rule scan_buffer_no_boundary) (use assms len in auto)
  show ?thesis
    using assms len sc
    by (simp add: b1 process_buffered_messages_with_def memcpy_buffer_def del: append_assoc)
qed


lemma scan_buffer_invariant:
  assumes step: "\<And>message n st tr st' evs.
      I st tr \<Longrightarrow> h message n st = Inr (st', evs) \<Longrightarrow> I st' (tr @ evs)"
  shows "I c (tr @ evs) \<Longrightarrow>
     scan_buffer h buffer buffer_offset i mso c evs = Inr (mso', c', evs') \<Longrightarrow> I c' (tr @ evs')"
proof (induction "buffer_offset - i" arbitrary: i mso c evs)
  case 0
  then show ?case by (simp add: scan_buffer.simps [of h buffer buffer_offset i])
next
  case (Suc n)
  show ?case
  proof (cases "i + 1 < buffer_offset")
    case False
    with Suc.prems show ?thesis by (simp add: scan_buffer.simps [of h buffer buffer_offset i])
  next
    case True
    have n: "n = buffer_offset - (i + 1)" using Suc.hyps(2) by simp
    show ?thesis
    proof (cases "buffer ! i = CHR 0x0D \<and> buffer ! (i + 1) = CHR 0x0A")
      case False
      with Suc.prems(2) True
      have "scan_buffer h buffer buffer_offset (i + 1) mso c evs = Inr (mso', c', evs')"
        by (auto simp add: scan_buffer.simps [of h buffer buffer_offset i] split: if_splits)
      from Suc.hyps(1) [OF n Suc.prems(1) this] show ?thesis .
    next
      case boundary: True
      with Suc.prems(2) True obtain c1 e1
        where h: "h (drop mso buffer) (i - mso) c = Inr (c1, e1)"
          and r: "scan_buffer h buffer buffer_offset (i + 1) (i + 2) c1 (evs @ e1) = Inr (mso', c', evs')"
        by (auto simp add: scan_buffer.simps [of h buffer buffer_offset i]
              split: if_splits sum.splits)
      from step [OF Suc.prems(1) h] have "I c1 (tr @ evs @ e1)" by simp
      from Suc.hyps(1) [OF n this r] show ?thesis .
    qed
  qed
qed

lemma process_buffered_messages_invariant:
  assumes step: "\<And>message n st tr st' evs.
      I st tr \<Longrightarrow> h message n st = Inr (st', evs) \<Longrightarrow> I st' (tr @ evs)"
    and log: "\<And>st tr l f as. I st tr \<Longrightarrow> I st (tr @ [Log l f as])"
    and "I c tr"
    and "process_buffered_messages_with h buffer bsize buffer_offset c = Inr (consumed, c', evs)"
  shows "I c' (tr @ evs)"
proof -
  from assms(4) obtain mso evs0 where sc: "scan_buffer h buffer buffer_offset 1 0 c [] = Inr (mso, c', evs0)"
    and evs: "evs = evs0 \<or> (\<exists>l f as. evs = evs0 @ [Log l f as])"
    by (auto simp add: process_buffered_messages_with_def split: sum.splits if_splits)
  have "I c' (tr @ evs0)"
    by (rule scan_buffer_invariant [of I h, OF step _ sc]) (use assms(3) in simp_all)
  with evs log [of c' "tr @ evs0"] show ?thesis by auto
qed

lemma client_loop_invariant:
  assumes step: "\<And>message n st tr st' evs.
      I st tr \<Longrightarrow> h message n st = Inr (st', evs) \<Longrightarrow> I st' (tr @ evs)"
    and log: "\<And>st tr l f as. I st tr \<Longrightarrow> I st (tr @ [Log l f as])"
  shows "I c tr \<Longrightarrow>
     (\<exists>c'. I c' (trace_of (client_loop h bsize buffer buffer_offset c tr reads))) \<and>
     (\<forall>cf. final_state (client_loop h bsize buffer buffer_offset c tr reads) = Some cf \<longrightarrow>
        I cf (trace_of (client_loop h bsize buffer buffer_offset c tr reads)))"
proof (induction reads arbitrary: buffer buffer_offset c tr)
  case Nil
  then show ?case by auto
next
  case (Cons r reads)
  show ?case
  proof (cases r)
    case Read_failed
    with log [OF Cons.prems] show ?thesis by auto
  next
    case (Read_bytes bytes)
    show ?thesis
    proof (cases "bsize - buffer_offset < length bytes")
      case True
      with Read_bytes Cons.prems show ?thesis by auto
    next
      case False
      define buffer1 where "buffer1 = take buffer_offset buffer @ bytes @
                         drop (buffer_offset + length bytes) buffer"
      show ?thesis
      proof (cases "process_buffered_messages_with h buffer1 bsize (buffer_offset + length bytes) c")
        case (Inl e)
        with False Read_bytes Cons.prems show ?thesis
          by (auto simp add: Let_def buffer1_def)
      next
        case (Inr res)
        then obtain consumed c1 evs
          where p: "process_buffered_messages_with h buffer1 bsize (buffer_offset + length bytes) c
                    = Inr (consumed, c1, evs)"
          by (cases res) auto
        from process_buffered_messages_invariant [of I h, OF step log Cons.prems p]
        have I1: "I c1 (tr @ evs)" .
        show ?thesis
        proof (cases "memcpy_buffer buffer1 0 consumed consumed")
          case (Inl e)
          with False Read_bytes p I1 show ?thesis
            by (auto simp add: Let_def buffer1_def)
        next
          case (Inr buffer2)
          with False Read_bytes p Cons.IH [OF I1] show ?thesis
            by (simp add: Let_def buffer1_def)
        qed
      qed
    qed
  qed
qed

lemma process_client_messages_welcome:
  defines "I \<equiv> \<lambda>rpl c tr.
     (if welcomeMessageSent c
      then nick c \<noteq> None \<and> username c \<noteq> None \<and>
           (\<exists>c1 c2 w. send_welcome_message rpl c1 = Inr (c2, w) \<and> sends tr = sends w)
      else sends tr = [] \<and> (nick c = None \<or> username c = None))"
  shows "(\<exists>c'. I rpl c' (trace_of (process_client_messages rpl block (new_client fd) reads))) \<and>
     (\<forall>cf. final_state (process_client_messages rpl block (new_client fd) reads) = Some cf \<longrightarrow>
        I rpl cf (trace_of (process_client_messages rpl block (new_client fd) reads)))"
  unfolding process_client_messages_def process_client_messages_with_def
proof (rule client_loop_invariant [of "I rpl"])
  show "I rpl (new_client fd) []" by (simp add: I_def new_client_def)
next
  fix st tr l f as assume "I rpl st tr"
  then show "I rpl st (tr @ [Log l f as])" by (simp add: I_def sends_append)
next
  fix message n st tr st' evs
  assume inv: "I rpl st tr" and p: "process_message rpl message n st = Inr (st', evs)"
  note e = process_message_effect [OF p] and k = process_message_keeps_identity [OF p]
  show "I rpl st' (tr @ evs)"
  proof (cases "welcomeMessageSent st")
    case True
    with inv e k show ?thesis by (auto simp add: I_def sends_append split: if_splits)
  next
    case False
    with inv e k show ?thesis
      by (cases "nick st' \<noteq> None \<and> username st' \<noteq> None")
         (auto simp add: I_def sends_append split: if_splits)
  qed
qed

section \<open>The command interpreter and the loops: claims\<close>

text \<open>
  C5. A \<open>NICK\<close> message without arguments and a \<open>USER\<close> message with three arguments
  make \<open>process_message\<close> read \<open>args\<close> outside the array: \<open>get_arg (m, 0)\<close> on an array
  of no entries, \<open>get_arg (m, 3)\<close> on an array of three.
\<close>

theorem C5_short_messages_index_out_of_bounds:
  "process_message rpl_welcome ''NICK'' 4 c = Inl Arg_index_out_of_bounds \<and>
   process_message rpl_welcome ''USER bob 0 0'' 12 c = Inl Arg_index_out_of_bounds"
  by (simp add: process_message_def parse_message_def handle_command_def get_arg_def cstr_def
        count_args.simps scan_token.simps collect_args.simps Let_def)

text \<open>
  C6. First, one message: the welcome is sent while the message is processed exactly
  when, after its command has run, \<open>nick\<close> and \<open>username\<close> are set and the flag was not
  set before; the flag is set then. In every other case nothing is sent and the flag is
  as it was, so once the flag is set no later message sends anything. Second, one
  connection from \<open>main\<close>'s new client, over any reads: all that was ever sent is nothing
  or what one call of \<open>send_welcome_message\<close> sends. Third, whenever the loop waits for
  the next read, the flag is set if and only if \<open>nick\<close> and \<open>username\<close> are both set, and
  if and only if something was sent.
\<close>

theorem C6_welcome_sent_once:
  "(process_message rpl message message_length c = Inr (c', evs) \<longrightarrow>
      (if nick c' \<noteq> None \<and> username c' \<noteq> None \<and> \<not> welcomeMessageSent c
       then welcomeMessageSent c' \<and>
            (\<exists>c1 w. send_welcome_message rpl c1 = Inr (c', w) \<and> sends evs = sends w)
       else sends evs = [] \<and> welcomeMessageSent c' = welcomeMessageSent c)) \<and>
   (sends (trace_of (process_client_messages rpl block (new_client fd) reads)) = [] \<or>
    (\<exists>c1 c2 w. send_welcome_message rpl c1 = Inr (c2, w) \<and>
       sends (trace_of (process_client_messages rpl block (new_client fd) reads)) = sends w)) \<and>
   (final_state (process_client_messages rpl block (new_client fd) reads) = Some cf \<longrightarrow>
      (welcomeMessageSent cf \<longleftrightarrow> nick cf \<noteq> None \<and> username cf \<noteq> None) \<and>
      (welcomeMessageSent cf \<longleftrightarrow>
         sends (trace_of (process_client_messages rpl block (new_client fd) reads)) \<noteq> []))"
proof (intro conjI impI)
  assume "process_message rpl message message_length c = Inr (c', evs)"
  then show "if nick c' \<noteq> None \<and> username c' \<noteq> None \<and> \<not> welcomeMessageSent c
       then welcomeMessageSent c' \<and>
            (\<exists>c1 w. send_welcome_message rpl c1 = Inr (c', w) \<and> sends evs = sends w)
       else sends evs = [] \<and> welcomeMessageSent c' = welcomeMessageSent c"
    by (rule process_message_effect)
next
  from process_client_messages_welcome [of rpl block fd reads]
  show "sends (trace_of (process_client_messages rpl block (new_client fd) reads)) = [] \<or>
    (\<exists>c1 c2 w. send_welcome_message rpl c1 = Inr (c2, w) \<and>
       sends (trace_of (process_client_messages rpl block (new_client fd) reads)) = sends w)"
    by (auto split: if_splits)
next
  assume f: "final_state (process_client_messages rpl block (new_client fd) reads) = Some cf"
  with process_client_messages_welcome [of rpl block fd reads]
  show "welcomeMessageSent cf \<longleftrightarrow> nick cf \<noteq> None \<and> username cf \<noteq> None"
    by (auto split: if_splits)
next
  assume f: "final_state (process_client_messages rpl block (new_client fd) reads) = Some cf"
  with process_client_messages_welcome [of rpl block fd reads]
  show "welcomeMessageSent cf \<longleftrightarrow>
         sends (trace_of (process_client_messages rpl block (new_client fd) reads)) \<noteq> []"
    by (auto split: if_splits dest: send_welcome_message_effect)
qed

theorem C6_welcome_sent_once_witness:
  "(\<exists>c' evs. process_message ''001'' ''USER a 0 0 :A'' 13 ((new_client 3)\<lparr>nick := Some ''alice''\<rparr>)
       = Inr (c', evs) \<and> welcomeMessageSent c' \<and> sends evs \<noteq> []) \<and>
   (\<exists>cf. final_state (process_client_messages ''001'' (replicate 1024 (CHR 0x00)) (new_client 3)
       [Read_bytes (''NICK alice'' @ [CHR 0x0D, CHR 0x0A] @ ''USER a 0 0 :A'' @ [CHR 0x0D, CHR 0x0A]
                    @ ''PING'' @ [CHR 0x0D, CHR 0x0A])]) = Some cf \<and>
      welcomeMessageSent cf \<and> nick cf = Some ''alice'' \<and> username cf = Some ''a'') \<and>
   sends (trace_of (process_client_messages ''001'' (replicate 1024 (CHR 0x00)) (new_client 3)
       [Read_bytes (''NICK alice'' @ [CHR 0x0D, CHR 0x0A] @ ''USER a 0 0 :A'' @ [CHR 0x0D, CHR 0x0A]
                    @ ''PING'' @ [CHR 0x0D, CHR 0x0A])])) =
     ['':irc.alexbostock.co.uk '', ''001'', '' '', ''alice'',
      '' :Welcome to the Internet Relay Network '', ''alice'', ''!'', ''a'', ''@'',
      ''foo.example.com'' @ [CHR 0x0D, CHR 0x0A]]"
proof -
  let ?c = "(new_client 3)\<lparr>nick := Some ''alice''\<rparr>"
  let ?out = "process_client_messages ''001'' (replicate 1024 (CHR 0x00)) (new_client 3)
       [Read_bytes (''NICK alice'' @ [CHR 0x0D, CHR 0x0A] @ ''USER a 0 0 :A'' @ [CHR 0x0D, CHR 0x0A]
                    @ ''PING'' @ [CHR 0x0D, CHR 0x0A])]"
  have "\<exists>c' evs. process_message ''001'' ''USER a 0 0 :A'' 13 ?c = Inr (c', evs) \<and>
          nick c' \<noteq> None \<and> username c' \<noteq> None"
    by (simp add: process_message_def parse_message_def handle_command_def get_arg_def cstr_def
          send_welcome_message_def send_data_def new_client_def
          count_args.simps scan_token.simps collect_args.simps Let_def)
  then obtain c' evs where h1: "process_message ''001'' ''USER a 0 0 :A'' 13 ?c = Inr (c', evs)"
    and ids: "nick c' \<noteq> None" "username c' \<noteq> None" by blast
  have flag: "\<not> welcomeMessageSent ?c" by (simp add: new_client_def)
  from C6_welcome_sent_once [THEN conjunct1, rule_format, OF h1] ids flag
  have w1: "welcomeMessageSent c' \<and> sends evs \<noteq> []"
    by (auto dest: send_welcome_message_effect)
  have "\<exists>cf. final_state ?out = Some cf \<and> nick cf = Some ''alice'' \<and> username cf = Some ''a''"
    by (simp add: process_client_messages_def process_client_messages_with_def buffer_size_def
          process_buffered_messages_with_def memcpy_buffer_def scan_buffer.simps nth_append
          process_message_def parse_message_def handle_command_def get_arg_def cstr_def
          send_welcome_message_def send_data_def new_client_def
          count_args.simps scan_token.simps collect_args.simps Let_def)
  then obtain cf where h2: "final_state ?out = Some cf"
    and ids2: "nick cf = Some ''alice''" "username cf = Some ''a''" by blast
  from C6_welcome_sent_once [THEN conjunct2, THEN conjunct2, rule_format, OF h2] ids2
  have w2: "welcomeMessageSent cf" by simp
  have w3: "sends (trace_of ?out) =
     ['':irc.alexbostock.co.uk '', ''001'', '' '', ''alice'',
      '' :Welcome to the Internet Relay Network '', ''alice'', ''!'', ''a'', ''@'',
      ''foo.example.com'' @ [CHR 0x0D, CHR 0x0A]]"
    by (simp add: process_client_messages_def process_client_messages_with_def buffer_size_def
          process_buffered_messages_with_def memcpy_buffer_def scan_buffer.simps nth_append
          process_message_def parse_message_def handle_command_def get_arg_def cstr_def
          send_welcome_message_def send_data_def new_client_def
          count_args.simps scan_token.simps collect_args.simps Let_def)
  from h1 w1 h2 w2 ids2 w3 show ?thesis by blast
qed

text \<open>
  C2. The scan starts at \<open>i = 1\<close>, so a CR LF at index 0 is no boundary: the buffer
  CR LF \<open>NICK a\<close> CR LF gives one message, which holds the first CR LF, and not the two
  messages (the empty one and \<open>NICK a\<close>) of the claim.
\<close>

theorem C2_boundary_at_index_0_is_skipped:
  "process_buffered_messages_with record_frame
     ([CHR 0x0D, CHR 0x0A] @ ''NICK a'' @ [CHR 0x0D, CHR 0x0A] @ replicate 1014 (CHR 0x00))
     1024 10 [] =
   Inr (10, [[CHR 0x0D, CHR 0x0A] @ ''NICK a''], [])"
  by (simp add: process_buffered_messages_with_def record_frame_def scan_buffer.simps
        nth_append)

text \<open>
  C1. \<open>memcpy\<close> is given \<open>consumed_offset\<close> as its length, not the number of bytes that
  remain. The two messages \<open>NICK alice\<close> and \<open>USER a 0 0 :A\<close> arrive whole when they are
  read at once. When the first read ends before the last CR LF, the 13 bytes that remain
  are longer than the 12 consumed and the last of them is not moved: the bytes kept for
  the next read are \<open>USER a 0 0 :U\<close>, and that is the second message after the CR LF
  has been read.
\<close>

theorem C1_partition_changes_the_messages:
  "final_state (process_client_messages_with record_frame (replicate 1024 (CHR 0x00)) []
     [Read_bytes (''NICK alice'' @ [CHR 0x0D, CHR 0x0A] @ ''USER a 0 0 :A'' @ [CHR 0x0D, CHR 0x0A])])
     = Some [''NICK alice'', ''USER a 0 0 :A''] \<and>
   pending_bytes (process_client_messages_with record_frame (replicate 1024 (CHR 0x00)) []
     [Read_bytes (''NICK alice'' @ [CHR 0x0D, CHR 0x0A] @ ''USER a 0 0 :A'')])
     = ''USER a 0 0 :U'' \<and>
   final_state (process_client_messages_with record_frame (replicate 1024 (CHR 0x00)) []
     [Read_bytes (''NICK alice'' @ [CHR 0x0D, CHR 0x0A] @ ''USER a 0 0 :A''),
      Read_bytes [CHR 0x0D, CHR 0x0A]])
     = Some [''NICK alice'', ''USER a 0 0 :U'']"
  by (simp add: process_client_messages_with_def buffer_size_def
        process_buffered_messages_with_def record_frame_def memcpy_buffer_def
        scan_buffer.simps nth_append Let_def)

text \<open>
  C8, as the code has it. If the connection is still waiting for a read after the reads
  so far, and the next \<open>read\<close> returns \<open>-1\<close>, the loop logs one \<open>ERROR\<close> event and calls
  \<open>exit (1)\<close>: the whole server process ends with status 1, whatever would have been read
  later. (An outcome that had already ended stays as it is.)
\<close>

theorem C8_read_failure_exits_the_process:
  "process_client_messages rpl block c (reads @ Read_failed # later) =
     (case process_client_messages rpl block c reads of
        Waiting_for_read buffer buffer_offset c' tr \<Rightarrow>
          Process_exit 1 (tr @ [Log ERROR ''Failed to read from client connection'' []])
      | Process_exit status tr \<Rightarrow> Process_exit status tr
      | Undefined_behaviour e tr \<Rightarrow> Undefined_behaviour e tr
      | Not_a_read tr \<Rightarrow> Not_a_read tr)"
  by (simp add: process_client_messages_def process_client_messages_with_def
        client_loop_append split: outcome.splits)

text \<open>
  C8 as the claim states it fails: a failed read ends the server process. And a closed
  socket, on which \<open>read\<close> returns 0, does not end the loop: after two such reads the
  connection still waits for the next one.
\<close>

theorem C8_counterexample:
  "process_client_messages ''001'' (replicate 1024 (CHR 0x00)) (new_client 3) [Read_failed] =
     Process_exit 1 [Log ERROR ''Failed to read from client connection'' []] \<and>
   process_client_messages ''001'' (replicate 1024 (CHR 0x00)) (new_client 3)
     [Read_bytes [], Read_bytes []] =
     Waiting_for_read (replicate 1024 (CHR 0x00)) 0 (new_client 3) []"
  by (simp add: process_client_messages_def process_client_messages_with_def buffer_size_def
        process_buffered_messages_with_def memcpy_buffer_def scan_buffer.simps)

text \<open>
  C9. A read of 1024 bytes without CR LF fills the buffer. \<open>process_buffered_messages\<close>
  does what the claim says: it calls no handler, logs one \<open>WARNING\<close> event and returns
  \<open>buffer_size\<close>. The loop then calls \<open>memcpy (buffer, buffer + 1024, 1024)\<close>, which reads
  the 1024 bytes after the end of the block.
\<close>

theorem C9_overflow_memcpy_out_of_bounds:
  "process_buffered_messages rpl (replicate 1024 (CHR ''a'')) 1024 1024 c =
     Inr (1024, c,
          [Log WARNING
             ''Buffer full of an oversized / invalid message. Dropping buffered data'' []]) \<and>
   process_client_messages rpl (replicate 1024 (CHR 0x00)) c
     [Read_bytes (replicate 1024 (CHR ''a''))] =
     Undefined_behaviour Memcpy_out_of_bounds
       [Log WARNING
          ''Buffer full of an oversized / invalid message. Dropping buffered data'' []]"
proof
  have "scan_buffer (process_message rpl) (replicate 1024 (CHR ''a'')) 1024 1 0 c [] = Inr (0, c, [])"
    by (rule scan_buffer_no_boundary) simp_all
  then show "process_buffered_messages rpl (replicate 1024 (CHR ''a'')) 1024 1024 c =
     Inr (1024, c,
          [Log WARNING
             ''Buffer full of an oversized / invalid message. Dropping buffered data'' []])"
    by (simp add: process_buffered_messages_def process_buffered_messages_with_def)
next
  show "process_client_messages rpl (replicate 1024 (CHR 0x00)) c
     [Read_bytes (replicate 1024 (CHR ''a''))] =
     Undefined_behaviour Memcpy_out_of_bounds
       [Log WARNING
          ''Buffer full of an oversized / invalid message. Dropping buffered data'' []]"
    unfolding process_client_messages_def process_client_messages_with_def buffer_size_def
    by (subst overflow_step) simp_all
qed

end
